theory Spec2Isabelle
  imports Complex_Main "HOL-Library.Multiset" "HOL-Library.Monad_Syntax"
begin

section \<open>Data model of \<open>SignalUtils.cc\<close>\<close>

text \<open>
  Simulation time (\<open>simtime_t\<close>) is a fixed-point integer; the code only compares
  times, so it is an \<open>int\<close>. Power samples (\<open>double\<close>) are idealised as \<open>real\<close>;
  the rounding of sums is added in the section on the bin sweep in double precision, where
  a property depends on it. A result that the code can produce as
  \<open>INFINITY\<close> is an \<open>xdouble\<close>. Frames are reached through pointers: a \<open>heap\<close> maps
  an address to the frame stored there, an \<open>AirFrameVector\<close> is a list of addresses, and
  an optional frame pointer is an \<open>addr option\<close> (\<open>None\<close> for \<open>nullptr\<close>). A failed
  \<open>ASSERT\<close>, an out-of-range index and \<open>top()\<close> of an empty queue are the result
  \<open>None\<close>. Names are those of the source; the parameter \<open>end\<close> is \<open>endT\<close> and the
  accessor \<open>Signal::at\<close> is \<open>sigAt\<close>, since \<open>end\<close> and \<open>at\<close> are taken.
\<close>

type_synonym simtime = int
type_synonym Spectrum = "real list"
type_synonym AnalogueModel = "real list \<Rightarrow> real list"
type_synonym addr = nat

text \<open>
  Modelled from the spec: the class \<open>Signal\<close>, whose header and implementation lie
  outside \<open>SignalUtils.cc\<close>. A signal has a spectrum descriptor, a vector of power samples indexed by
  bin of which the contiguous range \<open>[dataStart, dataEnd)\<close> is populated, a reception
  interval, and a fixed list of attenuation stages of which the first
  \<open>numAnalogueModelsApplied\<close> have been consumed.
\<close>

record Signal =
  spectrum :: Spectrum
  samples :: "real list"
  dataStart :: nat
  dataEnd :: nat
  receptionStart :: simtime
  receptionEnd :: simtime
  analogueModelList :: "AnalogueModel list"
  numAnalogueModelsApplied :: nat

text \<open>
  Modelled from the spec: the class \<open>AirFrame\<close> (generated from a message definition
  outside \<open>SignalUtils.cc\<close>). A frame owns exactly one signal and carries a transport
  identity (\<open>getTreeId\<close>). Its object identity is its address in the heap.
\<close>

record AirFrame =
  treeId :: int
  signal :: Signal

type_synonym heap = "addr \<Rightarrow> AirFrame"
type_synonym AirFrameVector = "addr list"

datatype ChangeType = nothing | starting | ending

text \<open>
  \<open>struct SignalChange\<close>. The field \<open>signal\<close> points into a frame, so it is the address
  of the frame that owns the signal (\<open>sigPtr\<close>); \<open>type\<close> and \<open>time\<close> are \<open>changeType\<close>
  and \<open>time\<close>.
\<close>

record SignalChange =
  sigPtr :: addr
  changeType :: ChangeType
  time :: simtime

datatype xdouble = Finite real | PosInf | NegInf | NaN

subsection \<open>Operations of \<open>Signal\<close>\<close>

text \<open>
  Modelled from the spec: \<open>Signal(spectrum)\<close> is a vector of zeros sized to the spectrum
  with no populated bin; the empty range is written \<open>[length spec, 0)\<close>, the neutral element
  of the hull taken by \<open>+=\<close> and \<open>-=\<close>.
\<close>

definition Signal_new :: "Spectrum \<Rightarrow> Signal" where
  "Signal_new spec =
     \<lparr>spectrum = spec, samples = replicate (length spec) 0,
      dataStart = length spec, dataEnd = 0,
      receptionStart = 0, receptionEnd = 0,
      analogueModelList = [], numAnalogueModelsApplied = 0\<rparr>"

text \<open>Modelled from the spec: per-bin indexing; an index outside the vector is a failure.\<close>

definition sigAt :: "Signal \<Rightarrow> nat \<Rightarrow> real option" where
  "sigAt s i = (if i < length (samples s) then Some (samples s ! i) else None)"

definition set_at :: "Signal \<Rightarrow> nat \<Rightarrow> real \<Rightarrow> Signal" where
  "set_at s i v = s\<lparr>samples := (samples s)[i := v]\<rparr>"

text \<open>
  Modelled from the spec: element-wise \<open>+=\<close> and \<open>-=\<close>. Signals combined in one
  computation must share the spectrum (an assertion-level check); the populated range of the
  result is the hull of both ranges.
\<close>

definition combine :: "(real \<Rightarrow> real \<Rightarrow> real) \<Rightarrow> Signal \<Rightarrow> Signal \<Rightarrow> Signal option" where
  "combine f a b =
     (if spectrum a = spectrum b
      then Some (a\<lparr>samples := map2 f (samples a) (samples b),
                   dataStart := min (dataStart a) (dataStart b),
                   dataEnd := max (dataEnd a) (dataEnd b)\<rparr>)
      else None)"

definition plus_assign :: "Signal \<Rightarrow> Signal \<Rightarrow> Signal option" where
  "plus_assign a b = combine (+) a b"

definition minus_assign :: "Signal \<Rightarrow> Signal \<Rightarrow> Signal option" where
  "minus_assign a b = combine (-) a b"

text \<open>
  Modelled from the spec: the max and min reductions scan the populated bin range. The spec
  does not say what they give when no bin is populated; the model takes 0, the implicit
  power of an unpopulated sample.
\<close>

definition populated :: "Signal \<Rightarrow> real list" where
  "populated s = drop (dataStart s) (take (dataEnd s) (samples s))"

definition getMax :: "Signal \<Rightarrow> real" where
  "getMax s = (case populated s of [] \<Rightarrow> 0 | x # xs \<Rightarrow> fold max xs x)"

definition getDataMin :: "Signal \<Rightarrow> real" where
  "getDataMin s = (case populated s of [] \<Rightarrow> 0 | x # xs \<Rightarrow> fold min xs x)"

text \<open>
  Modelled from the spec: "apply stage N" runs stage \<open>N\<close> of the fixed list on the power
  vector unless the index is outside the list or the stage is already consumed; "apply all
  remaining stages" runs every stage not yet consumed, in order.
\<close>

definition applyAnalogueModel :: "Signal \<Rightarrow> nat \<Rightarrow> Signal" where
  "applyAnalogueModel s index =
     (if index \<ge> length (analogueModelList s) \<or> index < numAnalogueModelsApplied s then s
      else s\<lparr>samples := (analogueModelList s ! index) (samples s),
             numAnalogueModelsApplied := numAnalogueModelsApplied s + 1\<rparr>)"

definition applyAllAnalogueModels :: "Signal \<Rightarrow> Signal" where
  "applyAllAnalogueModels s =
     fold (\<lambda>index s'. applyAnalogueModel s' index)
       [numAnalogueModelsApplied s ..< length (analogueModelList s)] s"

text \<open>
  Division of two samples as IEEE does it where the idealised quotient does not exist:
  a zero divisor gives an infinity or NaN. \<open>dless\<close> is \<open><\<close> on the results, false on
  NaN, and \<open>dmin\<close> is \<open>std::min\<close>, which returns its first argument unless the second is
  smaller.
\<close>

definition ddiv :: "real \<Rightarrow> real \<Rightarrow> xdouble" where
  "ddiv x y =
     (if y \<noteq> 0 then Finite (x / y)
      else if x > 0 then PosInf else if x < 0 then NegInf else NaN)"

fun dless :: "xdouble \<Rightarrow> xdouble \<Rightarrow> bool" where
  "dless NaN _ = False"
| "dless _ NaN = False"
| "dless (Finite x) (Finite y) = (x < y)"
| "dless (Finite x) PosInf = True"
| "dless (Finite x) NegInf = False"
| "dless PosInf _ = False"
| "dless NegInf NegInf = False"
| "dless NegInf _ = True"

definition dmin :: "xdouble \<Rightarrow> xdouble \<Rightarrow> xdouble" where
  "dmin a b = (if dless b a then b else a)"

section \<open>Event extraction\<close>

text \<open>
  \<open>calculateChanges\<close>: one pass over the frames, \<open>push_back\<close> in order. The excluded
  frame is recognised by its pointer.
\<close>

fun calculateChanges ::
  "heap \<Rightarrow> simtime \<Rightarrow> simtime \<Rightarrow> AirFrameVector \<Rightarrow> addr option \<Rightarrow> SignalChange list" where
  "calculateChanges h start endT [] exclude = []"
| "calculateChanges h start endT (airFrame # airFrames) exclude =
     (if Some airFrame = exclude then calculateChanges h start endT airFrames exclude
      else
        let sig = signal (h airFrame) in
        if start = endT \<and> receptionStart sig = start then
          \<lparr>sigPtr = airFrame, changeType = starting, time = receptionStart sig\<rparr>
            # calculateChanges h start endT airFrames exclude
        else if receptionStart sig < endT \<and> receptionEnd sig > start then
          \<lparr>sigPtr = airFrame, changeType = starting, time = receptionStart sig\<rparr>
            # (if receptionEnd sig \<le> endT
               then [\<lparr>sigPtr = airFrame, changeType = ending, time = receptionEnd sig\<rparr>]
               else [])
            @ calculateChanges h start endT airFrames exclude
        else calculateChanges h start endT airFrames exclude)"

section \<open>Sweep over the sorted events\<close>

text \<open>
  \<open>std::sort\<close> with \<open>compareByTime\<close> orders the events by time and leaves the order of
  events with equal times open; \<open>sort_key time\<close> is one such order.
\<close>

definition sortChanges :: "SignalChange list \<Rightarrow> SignalChange list" where
  "sortChanges changes = sort_key time changes"

text \<open>The first loop: every event up to \<open>start\<close> is added, whatever its type.\<close>

fun preRoll ::
  "heap \<Rightarrow> simtime \<Rightarrow> Signal \<Rightarrow> SignalChange list \<Rightarrow> (Signal \<times> SignalChange list) option" where
  "preRoll h start interference [] = Some (interference, [])"
| "preRoll h start interference (c # cs) =
     (if time c > start then Some (interference, c # cs)
      else do {
        interference' \<leftarrow> plus_assign interference (signal (h (sigPtr c)));
        preRoll h start interference' cs
      })"

definition applyChange :: "heap \<Rightarrow> SignalChange \<Rightarrow> Signal \<Rightarrow> Signal option" where
  "applyChange h c interference =
     (if changeType c = starting then plus_assign interference (signal (h (sigPtr c)))
      else if changeType c = ending then minus_assign interference (signal (h (sigPtr c)))
      else Some interference)"

text \<open>The second loop of \<open>getGlobalMax\<close>.\<close>

fun chunksMax :: "heap \<Rightarrow> Signal \<Rightarrow> real \<Rightarrow> SignalChange list \<Rightarrow> real option" where
  "chunksMax h interference maximum [] = Some maximum"
| "chunksMax h interference maximum (c # cs) =
     do {
       interference' \<leftarrow> applyChange h c interference;
       if cs = [] \<or> time c \<noteq> time (hd cs) then
         let tmpMax = getMax interference' in
         chunksMax h interference' (if tmpMax > maximum then tmpMax else maximum) cs
       else chunksMax h interference' maximum cs
     }"

text \<open>The second loop of \<open>getGlobalMin\<close>.\<close>

fun chunksMin :: "heap \<Rightarrow> Signal \<Rightarrow> real \<Rightarrow> SignalChange list \<Rightarrow> real option" where
  "chunksMin h interference minimum [] = Some minimum"
| "chunksMin h interference minimum (c # cs) =
     do {
       interference' \<leftarrow> applyChange h c interference;
       if cs = [] \<or> time c \<noteq> time (hd cs) then
         let tmpMin = getDataMin interference' in
         chunksMin h interference' (if tmpMin < minimum then tmpMin else minimum) cs
       else chunksMin h interference' minimum cs
     }"

text \<open>
  The part of \<open>getGlobalMax\<close> and \<open>getGlobalMin\<close> after the sort; \<open>spec\<close> is the
  spectrum of the first frame.
\<close>

definition sweepMax :: "heap \<Rightarrow> simtime \<Rightarrow> Spectrum \<Rightarrow> SignalChange list \<Rightarrow> real option" where
  "sweepMax h start spec changes =
     do {
       (interference, rest) \<leftarrow> preRoll h start (Signal_new spec) changes;
       chunksMax h interference (getMax interference) rest
     }"

definition sweepMin :: "heap \<Rightarrow> simtime \<Rightarrow> Spectrum \<Rightarrow> SignalChange list \<Rightarrow> real option" where
  "sweepMin h start spec changes =
     do {
       (interference, rest) \<leftarrow> preRoll h start (Signal_new spec) changes;
       chunksMin h interference (getDataMin interference) rest
     }"

definition getGlobalMax :: "heap \<Rightarrow> simtime \<Rightarrow> simtime \<Rightarrow> AirFrameVector \<Rightarrow> real option" where
  "getGlobalMax h start endT airFrames =
     (if airFrames = [] then Some 0
      else
        let changes = sortChanges (calculateChanges h start endT airFrames None) in
        if changes = [] then Some 0
        else sweepMax h start (spectrum (signal (h (hd airFrames)))) changes)"

definition getGlobalMin :: "heap \<Rightarrow> simtime \<Rightarrow> simtime \<Rightarrow> AirFrameVector \<Rightarrow> real option" where
  "getGlobalMin h start endT airFrames =
     (if airFrames = [] then Some 0
      else
        let changes = sortChanges (calculateChanges h start endT airFrames None) in
        if changes = [] then Some 0
        else sweepMin h start (spectrum (signal (h (hd airFrames)))) changes)"

text \<open>\<open>getMinAtFreqIndex\<close>: the same sweep on the sample of one bin.\<close>

fun preRollAt ::
  "heap \<Rightarrow> simtime \<Rightarrow> nat \<Rightarrow> real \<Rightarrow> SignalChange list \<Rightarrow> (real \<times> SignalChange list) option" where
  "preRollAt h start freqIndex interference [] = Some (interference, [])"
| "preRollAt h start freqIndex interference (c # cs) =
     (if time c > start then Some (interference, c # cs)
      else do {
        p \<leftarrow> sigAt (signal (h (sigPtr c))) freqIndex;
        preRollAt h start freqIndex (interference + p) cs
      })"

definition applyChangeAt :: "heap \<Rightarrow> nat \<Rightarrow> SignalChange \<Rightarrow> real \<Rightarrow> real option" where
  "applyChangeAt h freqIndex c interference =
     (if changeType c = starting then
        do { p \<leftarrow> sigAt (signal (h (sigPtr c))) freqIndex; Some (interference + p) }
      else if changeType c = ending then
        do { p \<leftarrow> sigAt (signal (h (sigPtr c))) freqIndex; Some (interference - p) }
      else Some interference)"

fun chunksMinAt :: "heap \<Rightarrow> nat \<Rightarrow> real \<Rightarrow> real \<Rightarrow> SignalChange list \<Rightarrow> real option" where
  "chunksMinAt h freqIndex interference minimum [] = Some minimum"
| "chunksMinAt h freqIndex interference minimum (c # cs) =
     do {
       interference' \<leftarrow> applyChangeAt h freqIndex c interference;
       if cs = [] \<or> time c \<noteq> time (hd cs) then
         chunksMinAt h freqIndex interference'
           (if interference' < minimum then interference' else minimum) cs
       else chunksMinAt h freqIndex interference' minimum cs
     }"

definition sweepMinAt :: "heap \<Rightarrow> simtime \<Rightarrow> nat \<Rightarrow> SignalChange list \<Rightarrow> real option" where
  "sweepMinAt h start freqIndex changes =
     do {
       (interference, rest) \<leftarrow> preRollAt h start freqIndex 0 changes;
       chunksMinAt h freqIndex interference interference rest
     }"

definition getMinAtFreqIndex ::
  "heap \<Rightarrow> simtime \<Rightarrow> simtime \<Rightarrow> AirFrameVector \<Rightarrow> nat \<Rightarrow> addr option \<Rightarrow> real option" where
  "getMinAtFreqIndex h start endT airFrames freqIndex exclude =
     (if airFrames = [] then Some 0
      else
        let changes = sortChanges (calculateChanges h start endT airFrames exclude) in
        if changes = [] then Some 0
        else sweepMinAt h start freqIndex changes)"

section \<open>Maximum interference seen by one frame\<close>

text \<open>
  The priority queue \<open>signalEndings\<close> holds copies of signals, smallest reception end on
  top: a list kept in ascending order of \<open>receptionEnd\<close>, \<open>top\<close> its head.
\<close>

record MaxInterferenceState =
  maxInterference :: Signal
  currentInterference :: Signal
  signalEndings :: "Signal list"
  currentTime :: simtime

text \<open>
  The inner \<open>while\<close> loop: it reads \<open>top()\<close> before every test, which is undefined on
  an empty queue.
\<close>

fun removeEnded :: "Signal \<Rightarrow> Signal list \<Rightarrow> simtime \<Rightarrow> (Signal \<times> Signal list) option" where
  "removeEnded cur [] t = None"
| "removeEnded cur (topSig # q) t =
     (if receptionEnd topSig \<le> t then
        do { cur' \<leftarrow> minus_assign cur topSig; removeEnded cur' q t }
      else Some (cur, topSig # q))"

text \<open>
  The \<open>for\<close> loop over \<open>spectrumIndex\<close>, given the list of indices it visits. The
  counter is a \<open>uint16_t\<close>; the model takes bin indices to fit it.
\<close>

fun updateMaximum :: "Signal \<Rightarrow> Signal \<Rightarrow> nat list \<Rightarrow> Signal option" where
  "updateMaximum maxI cur [] = Some maxI"
| "updateMaximum maxI cur (spectrumIndex # rest) =
     do {
       c \<leftarrow> sigAt cur spectrumIndex;
       m \<leftarrow> sigAt maxI spectrumIndex;
       updateMaximum (set_at maxI spectrumIndex (max c m)) cur rest
     }"

fun maxInterferenceLoop ::
  "heap \<Rightarrow> simtime \<Rightarrow> simtime \<Rightarrow> int \<Rightarrow> Spectrum \<Rightarrow> AirFrameVector \<Rightarrow>
   MaxInterferenceState \<Rightarrow> MaxInterferenceState option" where
  "maxInterferenceLoop h start endT refId spec [] st = Some st"
| "maxInterferenceLoop h start endT refId spec (interfererFrame # frames) st =
     (if treeId (h interfererFrame) = refId then
        maxInterferenceLoop h start endT refId spec frames st
      else
        let sig = signal (h interfererFrame) in
        if receptionEnd sig \<le> start \<or> receptionStart sig > endT then
          maxInterferenceLoop h start endT refId spec frames st
        else if \<not> receptionEnd sig > start then None
        else if \<not> receptionStart sig \<le> endT then None
        else if \<not> receptionStart sig \<ge> currentTime st then None
        else if \<not> spectrum sig = spec then None
        else
          let endings = insort_key receptionEnd sig (signalEndings st);
              now = receptionStart sig
          in
          if now \<ge> endT then Some (st\<lparr>signalEndings := endings, currentTime := now\<rparr>)
          else do {
            (cur, endings') \<leftarrow> removeEnded (currentInterference st) endings now;
            cur' \<leftarrow> plus_assign cur sig;
            maxI \<leftarrow> updateMaximum (maxInterference st) cur' [dataStart sig ..< dataEnd sig];
            maxInterferenceLoop h start endT refId spec frames
              \<lparr>maxInterference = maxI, currentInterference = cur',
               signalEndings = endings', currentTime = now\<rparr>
          })"

definition getMaxInterference ::
  "heap \<Rightarrow> simtime \<Rightarrow> simtime \<Rightarrow> addr \<Rightarrow> AirFrameVector \<Rightarrow> Signal option" where
  "getMaxInterference h start endT referenceFrame interfererFrames =
     (let spec = spectrum (signal (h referenceFrame)) in
      do {
        st \<leftarrow> maxInterferenceLoop h start endT (treeId (h referenceFrame)) spec interfererFrames
               \<lparr>maxInterference = Signal_new spec, currentInterference = Signal_new spec,
                signalEndings = [], currentTime = 0\<rparr>;
        Some (maxInterference st)
      })"

section \<open>Channel threshold test\<close>

text \<open>
  \<open>powerLevelSumAtFrequencyIndex\<close>: the loop adds the sample of each signal to the running
  sum, which starts at 0.
\<close>

fun powerLevelSumLoop :: "heap \<Rightarrow> real \<Rightarrow> addr list \<Rightarrow> nat \<Rightarrow> real option" where
  "powerLevelSumLoop h powerLevelSum [] freqIndex = Some powerLevelSum"
| "powerLevelSumLoop h powerLevelSum (signalPtr # signals) freqIndex =
     do {
       p \<leftarrow> sigAt (signal (h signalPtr)) freqIndex;
       powerLevelSumLoop h (powerLevelSum + p) signals freqIndex
     }"

definition powerLevelSumAtFrequencyIndex :: "heap \<Rightarrow> addr list \<Rightarrow> nat \<Rightarrow> real option" where
  "powerLevelSumAtFrequencyIndex h signals freqIndex = powerLevelSumLoop h 0 signals freqIndex"

text \<open>One round of the inner loop: stage \<open>index\<close> on every interferer, in place.\<close>

definition applyToAll :: "heap \<Rightarrow> addr list \<Rightarrow> nat \<Rightarrow> heap" where
  "applyToAll h interferers index =
     fold (\<lambda>p hh. hh(p := (hh p)\<lparr>signal := applyAnalogueModel (signal (hh p)) index\<rparr>))
       interferers h"

text \<open>
  The loop over \<open>analogueModelIndex\<close>, given the indices still to run, and the assertion
  after it.
\<close>

fun applyStages ::
  "heap \<Rightarrow> addr list \<Rightarrow> nat \<Rightarrow> real \<Rightarrow> nat list \<Rightarrow> (bool \<times> heap) option" where
  "applyStages h interferers freqIndex threshold [] =
     do {
       s \<leftarrow> powerLevelSumAtFrequencyIndex h interferers freqIndex;
       if s \<ge> threshold then Some (False, h) else None
     }"
| "applyStages h interferers freqIndex threshold (analogueModelIndex # rest) =
     (let h' = applyToAll h interferers analogueModelIndex in
      do {
        s \<leftarrow> powerLevelSumAtFrequencyIndex h' interferers freqIndex;
        if s < threshold then Some (True, h')
        else applyStages h' interferers freqIndex threshold rest
      })"

definition activeInterferers :: "heap \<Rightarrow> simtime \<Rightarrow> AirFrameVector \<Rightarrow> addr option \<Rightarrow> addr list" where
  "activeInterferers h now interfererFrames exclude =
     filter (\<lambda>f. receptionStart (signal (h f)) \<le> now \<and> receptionEnd (signal (h f)) > now
                 \<and> Some f \<noteq> exclude) interfererFrames"

text \<open>
  \<open>isChannelPowerBelowThreshold\<close> returns its answer and the heap it leaves behind: the
  attenuation stages change the interferers' signals in place.
\<close>

definition isChannelPowerBelowThreshold ::
  "heap \<Rightarrow> simtime \<Rightarrow> AirFrameVector \<Rightarrow> nat \<Rightarrow> real \<Rightarrow> addr option \<Rightarrow> (bool \<times> heap) option" where
  "isChannelPowerBelowThreshold h now interfererFrames freqIndex threshold exclude =
     (if interfererFrames = [] then Some (True, h)
      else
        let interferers = activeInterferers h now interfererFrames exclude in
        do {
          s \<leftarrow> powerLevelSumAtFrequencyIndex h interferers freqIndex;
          if s < threshold then Some (True, h)
          else
            let analogueModelCount =
                  length (analogueModelList (signal (h (hd interfererFrames)))) in
            if \<not> list_all (\<lambda>p. analogueModelCount = length (analogueModelList (signal (h p))))
                   interferers
            then None
            else applyStages h interferers freqIndex threshold [0 ..< analogueModelCount]
        })"

section \<open>Minimum SINR\<close>

definition attenuate :: "heap \<Rightarrow> addr \<Rightarrow> heap" where
  "attenuate h f = h(f := (h f)\<lparr>signal := applyAllAnalogueModels (signal (h f))\<rparr>)"

text \<open>
  The reference frame's signal is attenuated first, then every interferer's, in the order of
  the collection.
\<close>

definition attenuateAll :: "heap \<Rightarrow> addr \<Rightarrow> AirFrameVector \<Rightarrow> heap" where
  "attenuateAll h signalFrame interfererFrames =
     fold (\<lambda>f hh. attenuate hh f) interfererFrames (attenuate h signalFrame)"

text \<open>
  The last loop of \<open>getMinSINR\<close>; \<open>sinr.at(i)\<close> is the quotient of the signal's sample
  and the interference plus noise at bin \<open>i\<close>.
\<close>

fun minOverBins :: "Signal \<Rightarrow> Signal \<Rightarrow> real \<Rightarrow> xdouble \<Rightarrow> nat list \<Rightarrow> xdouble option" where
  "minOverBins sig interference noise min_sinr [] = Some min_sinr"
| "minOverBins sig interference noise min_sinr (i # rest) =
     do {
       s \<leftarrow> sigAt sig i;
       n \<leftarrow> sigAt interference i;
       minOverBins sig interference noise (dmin min_sinr (ddiv s (n + noise))) rest
     }"

definition getMinSINR ::
  "heap \<Rightarrow> simtime \<Rightarrow> simtime \<Rightarrow> addr \<Rightarrow> AirFrameVector \<Rightarrow> real \<Rightarrow> (xdouble \<times> heap) option" where
  "getMinSINR h start endT signalFrame interfererFrames noise =
     (if \<not> start \<ge> receptionStart (signal (h signalFrame)) then None
      else if \<not> endT \<le> receptionEnd (signal (h signalFrame)) then None
      else
        let h' = attenuateAll h signalFrame interfererFrames;
            sig = signal (h' signalFrame)
        in
        do {
          interference \<leftarrow> getMaxInterference h' start endT signalFrame interfererFrames;
          min_sinr \<leftarrow> minOverBins sig interference noise PosInf [dataStart sig ..< dataEnd sig];
          Some (min_sinr, h')
        })"

section \<open>Reference definitions and example data\<close>

text \<open>
  The events one frame contributes, written from the rule for the window rather than from
  the loop: in a point query a single starting event when the signal starts at that instant
  or is active around it; otherwise a starting event when the signal overlaps the window and
  an ending event when it also ends inside.
\<close>

definition specifiedChanges :: "heap \<Rightarrow> simtime \<Rightarrow> simtime \<Rightarrow> addr \<Rightarrow> SignalChange list" where
  "specifiedChanges h start endT a =
     (let sig = signal (h a);
          startingEvent = \<lparr>sigPtr = a, changeType = starting, time = receptionStart sig\<rparr>;
          endingEvent = \<lparr>sigPtr = a, changeType = ending, time = receptionEnd sig\<rparr>
      in
      if start = endT then
        (if receptionStart sig = start \<or> (receptionStart sig < start \<and> start < receptionEnd sig)
         then [startingEvent] else [])
      else
        (if receptionStart sig < endT \<and> receptionEnd sig > start
         then startingEvent # (if receptionEnd sig \<le> endT then [endingEvent] else [])
         else []))"

text \<open>
  A signal is active on \<open>[receptionStart, receptionEnd)\<close>. \<open>activePowerSum\<close> is the
  sum, at bin \<open>b\<close>, of the power of the frames of a collection that are active at instant
  \<open>t\<close>, the excluded frame object left out.
\<close>

definition activeAt :: "heap \<Rightarrow> simtime \<Rightarrow> addr \<Rightarrow> bool" where
  "activeAt h t a =
     (receptionStart (signal (h a)) \<le> t \<and> t < receptionEnd (signal (h a)))"

definition powerAt :: "heap \<Rightarrow> nat \<Rightarrow> addr \<Rightarrow> real" where
  "powerAt h b a = samples (signal (h a)) ! b"


text \<open>
  The three sweeps have one shape. \<open>sweepPreRoll\<close> is the first loop over an operation
  \<open>add\<close> that adds one event's signal to the accumulator; \<open>sweepChunks\<close> is the second
  loop over an operation \<open>app\<close> that applies one event and a function \<open>upd\<close> that folds
  the accumulator into the running extremum at a boundary; \<open>sweepBoth\<close> runs one after
  the other, the extremum seeded by \<open>seed\<close>. \<open>applyEvents\<close> applies a run of events
  with no evaluation in between. Operations are \<open>commuting\<close> when two of them give the
  same accumulator, or the same failure, in either order.
\<close>

fun sweepChunks ::
  "(SignalChange \<Rightarrow> 'a \<Rightarrow> 'a option) \<Rightarrow> ('a \<Rightarrow> real \<Rightarrow> real) \<Rightarrow> 'a \<Rightarrow> real
     \<Rightarrow> SignalChange list \<Rightarrow> real option" where
  "sweepChunks app upd acc ext [] = Some ext"
| "sweepChunks app upd acc ext (c # cs) =
     do {
       acc' \<leftarrow> app c acc;
       if cs = [] \<or> time c \<noteq> time (hd cs) then sweepChunks app upd acc' (upd acc' ext) cs
       else sweepChunks app upd acc' ext cs
     }"

fun sweepPreRoll ::
  "(SignalChange \<Rightarrow> 'a \<Rightarrow> 'a option) \<Rightarrow> simtime \<Rightarrow> 'a \<Rightarrow> SignalChange list
     \<Rightarrow> ('a \<times> SignalChange list) option" where
  "sweepPreRoll add start acc [] = Some (acc, [])"
| "sweepPreRoll add start acc (c # cs) =
     (if time c > start then Some (acc, c # cs)
      else do { acc' \<leftarrow> add c acc; sweepPreRoll add start acc' cs })"

definition sweepBoth ::
  "(SignalChange \<Rightarrow> 'a \<Rightarrow> 'a option) \<Rightarrow> (SignalChange \<Rightarrow> 'a \<Rightarrow> 'a option)
     \<Rightarrow> ('a \<Rightarrow> real \<Rightarrow> real) \<Rightarrow> ('a \<Rightarrow> real) \<Rightarrow> simtime \<Rightarrow> 'a \<Rightarrow> SignalChange list
     \<Rightarrow> real option" where
  "sweepBoth add app upd seed start acc cs =
     do { (a, rest) \<leftarrow> sweepPreRoll add start acc cs; sweepChunks app upd a (seed a) rest }"

fun applyEvents :: "(SignalChange \<Rightarrow> 'a \<Rightarrow> 'a option) \<Rightarrow> SignalChange list \<Rightarrow> 'a \<Rightarrow> 'a option" where
  "applyEvents app [] acc = Some acc"
| "applyEvents app (c # cs) acc = app c acc \<bind> applyEvents app cs"

definition commuting :: "(SignalChange \<Rightarrow> 'a \<Rightarrow> 'a option) \<Rightarrow> bool" where
  "commuting app = (\<forall>a b acc. (app a acc \<bind> app b) = (app b acc \<bind> app a))"

text \<open>
  The interference at instant \<open>t\<close> and bin \<open>b\<close>: the sum of the power at that bin of
  the signals of all frames of the collection whose transport identity is not \<open>refId\<close>
  and whose reception interval contains \<open>t\<close>.
\<close>

definition interferenceAt :: "heap \<Rightarrow> int \<Rightarrow> AirFrameVector \<Rightarrow> simtime \<Rightarrow> nat \<Rightarrow> real" where
  "interferenceAt h refId frames t b =
     sum_list (map (powerAt h b)
       (filter (\<lambda>f. treeId (h f) \<noteq> refId \<and> activeAt h t f) frames))"

text \<open>
  For a point window: the sum of the power at bin \<open>b\<close> of the signals of all frames
  whose transport identity is not \<open>refId\<close>, that started before the instant \<open>t\<close> and
  are still active at it.
\<close>

definition interferenceOfEarlier :: "heap \<Rightarrow> int \<Rightarrow> AirFrameVector \<Rightarrow> simtime \<Rightarrow> nat \<Rightarrow> real" where
  "interferenceOfEarlier h refId frames t b =
     sum_list (map (powerAt h b)
       (filter (\<lambda>f. treeId (h f) \<noteq> refId \<and> receptionStart (signal (h f)) < t
                   \<and> t < receptionEnd (signal (h f))) frames))"

text \<open>
  What \<open>getMaxInterference\<close> relies on in an interferer's signal: the spectrum is the
  expected one and the sample vector is sized to it, the reception interval is not
  degenerate, the populated range ends inside the vector, no power is negative, and the
  samples outside the populated range are zero.
\<close>

definition wellFormed :: "Spectrum \<Rightarrow> Signal \<Rightarrow> bool" where
  "wellFormed spec s =
     (spectrum s = spec \<and> length (samples s) = length spec
      \<and> receptionStart s < receptionEnd s
      \<and> dataEnd s \<le> length spec
      \<and> list_all (\<lambda>p. 0 \<le> p) (samples s)
      \<and> list_all (\<lambda>b. (b < dataStart s \<or> dataEnd s \<le> b) \<longrightarrow> samples s ! b = 0)
           [0 ..< length spec])"

text \<open>
  The loop of \<open>getMaxInterference\<close> on the signals of the frames that the identity test
  lets through, and the sum of the power of the signals of a list that are active at an
  instant.
\<close>

fun interferenceLoop ::
  "simtime \<Rightarrow> simtime \<Rightarrow> Spectrum \<Rightarrow> Signal list \<Rightarrow> MaxInterferenceState
     \<Rightarrow> MaxInterferenceState option" where
  "interferenceLoop start endT spec [] st = Some st"
| "interferenceLoop start endT spec (sig # sigs) st =
     (if receptionEnd sig \<le> start \<or> receptionStart sig > endT then
        interferenceLoop start endT spec sigs st
      else if \<not> receptionEnd sig > start then None
      else if \<not> receptionStart sig \<le> endT then None
      else if \<not> receptionStart sig \<ge> currentTime st then None
      else if \<not> spectrum sig = spec then None
      else
        let endings = insort_key receptionEnd sig (signalEndings st);
            now = receptionStart sig
        in
        if now \<ge> endT then Some (st\<lparr>signalEndings := endings, currentTime := now\<rparr>)
        else do {
          (cur, endings') \<leftarrow> removeEnded (currentInterference st) endings now;
          cur' \<leftarrow> plus_assign cur sig;
          maxI \<leftarrow> updateMaximum (maxInterference st) cur' [dataStart sig ..< dataEnd sig];
          interferenceLoop start endT spec sigs
            \<lparr>maxInterference = maxI, currentInterference = cur',
             signalEndings = endings', currentTime = now\<rparr>
        })"

definition activeSignal :: "Signal \<Rightarrow> simtime \<Rightarrow> bool" where
  "activeSignal s t = (receptionStart s \<le> t \<and> t < receptionEnd s)"

definition powerSum :: "Signal list \<Rightarrow> simtime \<Rightarrow> nat \<Rightarrow> real" where
  "powerSum ss t b = sum_list (map (\<lambda>s. samples s ! b) (filter (\<lambda>s. activeSignal s t) ss))"

text \<open>
  The instants of a window at which the loop's result is read: \<open>[start, end)\<close>, or the
  single instant \<open>start\<close> of a point window.
\<close>

definition window :: "simtime \<Rightarrow> simtime \<Rightarrow> simtime set" where
  "window start endT = (if start < endT then {start ..< endT} else {start})"

text \<open>
  The invariant of that loop after the signals \<open>seen\<close> have passed the filters: they
  started by the current time, inside the window's reach; the queue holds those of them that
  end after the current time; the running total is their sum; the tracker is above the
  running total, above the interference of \<open>seen\<close> at every instant of the window, and
  attained by it at some instant of the window.
\<close>

definition loopInv ::
  "simtime \<Rightarrow> simtime \<Rightarrow> Spectrum \<Rightarrow> Signal list \<Rightarrow> MaxInterferenceState \<Rightarrow> bool" where
  "loopInv start endT spec seen st =
     ((\<forall>s \<in> set seen. wellFormed spec s \<and> receptionStart s \<le> currentTime st
                       \<and> receptionStart s < endT \<and> start < receptionEnd s)
      \<and> sorted (map receptionEnd (signalEndings st))
      \<and> mset (signalEndings st) = mset (filter (\<lambda>s. currentTime st < receptionEnd s) seen)
      \<and> spectrum (currentInterference st) = spec
      \<and> length (samples (currentInterference st)) = length spec
      \<and> length (samples (maxInterference st)) = length spec
      \<and> (\<forall>b < length spec.
            samples (currentInterference st) ! b
              = sum_list (map (\<lambda>s. samples s ! b)
                  (filter (\<lambda>s. currentTime st < receptionEnd s) seen))
            \<and> samples (currentInterference st) ! b \<le> samples (maxInterference st) ! b
            \<and> 0 \<le> samples (maxInterference st) ! b
            \<and> (\<forall>t \<in> window start endT. powerSum seen t b \<le> samples (maxInterference st) ! b)
            \<and> (\<exists>t \<in> window start endT. samples (maxInterference st) ! b \<le> powerSum seen t b)))"

text \<open>
  Example data: a spectrum of two bins; frames 1 and 3 are two objects with the same
  transport identity and the same signal, active on \<open>[0, 10)\<close>; frame 2 is active on
  \<open>[5, 15)\<close>; frame 4 carries a signal with no populated bin.
\<close>

definition mkSignal :: "real list \<Rightarrow> simtime \<Rightarrow> simtime \<Rightarrow> Signal" where
  "mkSignal ps rs re =
     \<lparr>spectrum = [1, 2], samples = ps, dataStart = 0, dataEnd = 2,
      receptionStart = rs, receptionEnd = re,
      analogueModelList = [], numAnalogueModelsApplied = 0\<rparr>"

definition exHeap :: heap where
  "exHeap = (\<lambda>_. \<lparr>treeId = 0, signal = mkSignal [0, 0] 0 0\<rparr>)
     (1 := \<lparr>treeId = 10, signal = mkSignal [3, 3] 0 10\<rparr>,
      2 := \<lparr>treeId = 20, signal = mkSignal [2, 5] 5 15\<rparr>,
      3 := \<lparr>treeId = 10, signal = mkSignal [3, 3] 0 10\<rparr>,
      4 := \<lparr>treeId = 40, signal = (mkSignal [7, 7] 0 10)\<lparr>dataStart := 1, dataEnd := 1\<rparr>\<rparr>)"

section \<open>The bin sweep in double precision\<close>

text \<open>
  The models above add and subtract power samples exactly. The source computes in
  \<open>double\<close>: every \<open>+=\<close> and \<open>-=\<close> rounds its result to the nearest binary64 number,
  ties to the even significand. \<open>roundDouble\<close> is that rounding for results in the normal
  range of binary64 (overflow and subnormal results are left out): \<open>normalise\<close> scales the
  magnitude into \<open>[2^52, 2^53)\<close>, keeping the exponent, \<open>roundHalfEven\<close> rounds the scaled
  magnitude to an integer significand, and the result is scaled back. The fuel of
  \<open>normalise\<close> exceeds the exponent range of binary64.
\<close>

fun normalise :: "nat \<Rightarrow> real \<Rightarrow> int \<Rightarrow> real \<times> int" where
  "normalise 0 q e = (q, e)"
| "normalise (Suc fuel) q e =
     (if 2 ^ 53 \<le> q then normalise fuel (q / 2) (e + 1)
      else if q < 2 ^ 52 then normalise fuel (q * 2) (e - 1)
      else (q, e))"

definition roundHalfEven :: "real \<Rightarrow> int" where
  "roundHalfEven q =
     (let f = \<lfloor>q\<rfloor>; r = q - of_int f
      in if r < 1 / 2 then f else if 1 / 2 < r then f + 1
         else if even f then f else f + 1)"

definition roundDouble :: "real \<Rightarrow> real" where
  "roundDouble x =
     (if x = 0 then 0
      else
        let (q, e) = normalise 2200 \<bar>x\<bar> 0
        in sgn x * of_int (roundHalfEven q) * 2 powi e)"

text \<open>
  \<open>getMinAtFreqIndex\<close> once more, line by line as above, with the accumulator
  \<open>double interference\<close> rounded after every \<open>+=\<close> and \<open>-=\<close>. Comparisons and the
  samples read from the signals are exact.
\<close>

fun preRollAt_double ::
  "heap \<Rightarrow> simtime \<Rightarrow> nat \<Rightarrow> real \<Rightarrow> SignalChange list \<Rightarrow> (real \<times> SignalChange list) option" where
  "preRollAt_double h start freqIndex interference [] = Some (interference, [])"
| "preRollAt_double h start freqIndex interference (c # cs) =
     (if time c > start then Some (interference, c # cs)
      else do {
        p \<leftarrow> sigAt (signal (h (sigPtr c))) freqIndex;
        preRollAt_double h start freqIndex (roundDouble (interference + p)) cs
      })"

definition applyChangeAt_double :: "heap \<Rightarrow> nat \<Rightarrow> SignalChange \<Rightarrow> real \<Rightarrow> real option" where
  "applyChangeAt_double h freqIndex c interference =
     (if changeType c = starting then
        do { p \<leftarrow> sigAt (signal (h (sigPtr c))) freqIndex;
             Some (roundDouble (interference + p)) }
      else if changeType c = ending then
        do { p \<leftarrow> sigAt (signal (h (sigPtr c))) freqIndex;
             Some (roundDouble (interference - p)) }
      else Some interference)"

fun chunksMinAt_double :: "heap \<Rightarrow> nat \<Rightarrow> real \<Rightarrow> real \<Rightarrow> SignalChange list \<Rightarrow> real option" where
  "chunksMinAt_double h freqIndex interference minimum [] = Some minimum"
| "chunksMinAt_double h freqIndex interference minimum (c # cs) =
     do {
       interference' \<leftarrow> applyChangeAt_double h freqIndex c interference;
       if cs = [] \<or> time c \<noteq> time (hd cs) then
         chunksMinAt_double h freqIndex interference'
           (if interference' < minimum then interference' else minimum) cs
       else chunksMinAt_double h freqIndex interference' minimum cs
     }"

definition sweepMinAt_double :: "heap \<Rightarrow> simtime \<Rightarrow> nat \<Rightarrow> SignalChange list \<Rightarrow> real option" where
  "sweepMinAt_double h start freqIndex changes =
     do {
       (interference, rest) \<leftarrow> preRollAt_double h start freqIndex 0 changes;
       chunksMinAt_double h freqIndex interference interference rest
     }"

definition getMinAtFreqIndex_double ::
  "heap \<Rightarrow> simtime \<Rightarrow> simtime \<Rightarrow> AirFrameVector \<Rightarrow> nat \<Rightarrow> addr option \<Rightarrow> real option" where
  "getMinAtFreqIndex_double h start endT airFrames freqIndex exclude =
     (if airFrames = [] then Some 0
      else
        let changes = sortChanges (calculateChanges h start endT airFrames exclude) in
        if changes = [] then Some 0
        else sweepMinAt_double h start freqIndex changes)"

text \<open>
  Example data for the rounding: frame 1 has the power \<open>10^16\<close> on \<open>[0, 5)\<close>; frames 2 and
  3 have the power 1 on \<open>[5, 10)\<close>. Next to \<open>10^16\<close> the binary64 numbers are 2 apart.
\<close>

definition roundingHeap :: heap where
  "roundingHeap = (\<lambda>_. \<lparr>treeId = 0, signal = mkSignal [0, 0] 0 0\<rparr>)
     (1 := \<lparr>treeId = 10, signal = mkSignal [10000000000000000, 10000000000000000] 0 5\<rparr>,
      2 := \<lparr>treeId = 20, signal = mkSignal [1, 1] 5 10\<rparr>,
      3 := \<lparr>treeId = 30, signal = mkSignal [1, 1] 5 10\<rparr>)"


section \<open>Properties\<close>

subsection \<open>Empty collections\<close>

text \<open>
  C9: for every window, \<open>getGlobalMax\<close>, \<open>getGlobalMin\<close> and \<open>getMinAtFreqIndex\<close>
  return 0 on the empty collection; the answer is a value, not a failure, and no event is
  extracted for it.
\<close>

theorem empty_collection_gives_zero:
  "getGlobalMax h start endT [] = Some 0 \<and>
   getGlobalMin h start endT [] = Some 0 \<and>
   getMinAtFreqIndex h start endT [] freqIndex exclude = Some 0"
  by (simp add: getGlobalMax_def getGlobalMin_def getMinAtFreqIndex_def)

subsection \<open>Event extraction\<close>

text \<open>
  C4, as the code has it: the events of a collection are the events of its frames other
  than the excluded one, in order, and each frame contributes what \<open>specifiedChanges\<close>
  says: for \<open>start \<noteq> end\<close> a starting event exactly when \<open>receptionStart < end\<close> and
  \<open>receptionEnd > start\<close>, and then an ending event exactly when \<open>receptionEnd \<le> end\<close>;
  for \<open>start = end\<close> a single starting event exactly when the signal starts at that instant
  or is active around it (\<open>receptionStart < start < receptionEnd\<close>).
\<close>

theorem calculateChanges_specified:
  "calculateChanges h start endT airFrames exclude =
     concat (map (specifiedChanges h start endT)
       (filter (\<lambda>a. Some a \<noteq> exclude) airFrames))"
  by (induction airFrames) (auto simp: specifiedChanges_def Let_def)

text \<open>
  Witness for C4: over the window \<open>[0, 12]\<close> frame 1, which ends at 10, contributes a
  starting and an ending event, and frame 2, which ends at 15, a starting event only; in
  the point query at 5 frame 2 starts at that instant and frame 1 is active around it.
\<close>

theorem calculateChanges_specified_witness:
  "calculateChanges exHeap 0 12 [1, 2] None
     = [\<lparr>sigPtr = 1, changeType = starting, time = 0\<rparr>,
        \<lparr>sigPtr = 1, changeType = ending, time = 10\<rparr>,
        \<lparr>sigPtr = 2, changeType = starting, time = 5\<rparr>]
   \<and> calculateChanges exHeap 5 5 [1, 2] None
     = [\<lparr>sigPtr = 1, changeType = starting, time = 0\<rparr>,
        \<lparr>sigPtr = 2, changeType = starting, time = 5\<rparr>]"
  unfolding calculateChanges_specified
  by (simp add: specifiedChanges_def exHeap_def mkSignal_def)

text \<open>
  C4 as stated fails in a point query: at \<open>start = end = 5\<close> the signal of frame 1, which
  started at 0 and is still active, contributes a starting event although its reception
  start is not 5.
\<close>

theorem point_query_active_signal_counterexample:
  "calculateChanges exHeap 5 5 [1] None = [\<lparr>sigPtr = 1, changeType = starting, time = 0\<rparr>]
   \<and> receptionStart (signal (exHeap 1)) \<noteq> 5"
  by (simp add: exHeap_def mkSignal_def)

subsection \<open>Channel threshold test\<close>

lemma powerLevelSum_unfold [simp]:
  "powerLevelSumAtFrequencyIndex h signals freqIndex = powerLevelSumLoop h 0 signals freqIndex"
  by (simp add: powerLevelSumAtFrequencyIndex_def)



text \<open>
  C7, as the code has it: when no frame other than the excluded one is active at \<open>now\<close>,
  \<open>isChannelPowerBelowThreshold\<close> answers true for every positive threshold, and for every
  threshold when the collection is empty; the heap is unchanged.
\<close>

theorem no_active_interferer_below_threshold:
  assumes "\<forall>f \<in> set interfererFrames. Some f \<noteq> exclude \<longrightarrow>
             \<not> (receptionStart (signal (h f)) \<le> now \<and> now < receptionEnd (signal (h f)))"
    and "0 < threshold \<or> interfererFrames = []"
  shows "isChannelPowerBelowThreshold h now interfererFrames freqIndex threshold exclude
           = Some (True, h)"
proof -
  have "activeInterferers h now interfererFrames exclude = []"
    using assms(1) by (auto simp: activeInterferers_def filter_empty_conv)
  then show ?thesis
    using assms(2) by (auto simp: isChannelPowerBelowThreshold_def)
qed

text \<open>
  Witness for C7: at instant 20 neither frame is active, and the threshold 1 is positive;
  on the empty collection the answer is true for the threshold 0 as well.
\<close>

theorem no_active_interferer_below_threshold_witness:
  "isChannelPowerBelowThreshold exHeap 20 [1, 2] 0 1 None = Some (True, exHeap)
   \<and> isChannelPowerBelowThreshold exHeap 20 [] 0 0 None = Some (True, exHeap)"
proof -
  have a: "\<forall>f \<in> set [1, 2]. Some f \<noteq> None \<longrightarrow>
             \<not> (receptionStart (signal (exHeap f)) \<le> 20 \<and> 20 < receptionEnd (signal (exHeap f)))"
    by (simp add: exHeap_def mkSignal_def)
  have b: "(0::real) < 1 \<or> [1, 2::nat] = []" by simp
  have a': "\<forall>f \<in> set []. Some f \<noteq> None \<longrightarrow>
             \<not> (receptionStart (signal (exHeap f)) \<le> 20 \<and> 20 < receptionEnd (signal (exHeap f)))"
    by simp
  have b': "(0::real) < 0 \<or> ([] :: nat list) = []" by simp
  show ?thesis
    using no_active_interferer_below_threshold [OF a b]
      no_active_interferer_below_threshold [OF a' b']
    by blast
qed

text \<open>
  C7 as stated fails for a threshold that is not positive: at instant 20 no frame of the
  collection is active, and with threshold 0 the answer is false.
\<close>

theorem no_active_interferer_counterexample:
  "activeInterferers exHeap 20 [1, 2] None = [] \<and>
   isChannelPowerBelowThreshold exHeap 20 [1, 2] 0 0 None = Some (False, exHeap)"
  by (simp add: exHeap_def mkSignal_def activeInterferers_def isChannelPowerBelowThreshold_def)

subsection \<open>Minimum SINR over an empty bin range\<close>

lemma applyAnalogueModel_range [simp]:
  "dataStart (applyAnalogueModel s i) = dataStart s"
  "dataEnd (applyAnalogueModel s i) = dataEnd s"
  by (simp_all add: applyAnalogueModel_def)

lemma fold_applyAnalogueModel_range [simp]:
  "dataStart (fold (\<lambda>index s'. applyAnalogueModel s' index) is s) = dataStart s"
  "dataEnd (fold (\<lambda>index s'. applyAnalogueModel s' index) is s) = dataEnd s"
  by (induction "is" arbitrary: s) simp_all

lemma applyAllAnalogueModels_range [simp]:
  "dataStart (applyAllAnalogueModels s) = dataStart s"
  "dataEnd (applyAllAnalogueModels s) = dataEnd s"
  by (simp_all add: applyAllAnalogueModels_def)

lemma attenuate_range [simp]:
  "dataStart (signal (attenuate h f g)) = dataStart (signal (h g))"
  "dataEnd (signal (attenuate h f g)) = dataEnd (signal (h g))"
  by (simp_all add: attenuate_def)

lemma fold_attenuate_range [simp]:
  "dataStart (signal (fold (\<lambda>f hh. attenuate hh f) fs h g)) = dataStart (signal (h g))"
  "dataEnd (signal (fold (\<lambda>f hh. attenuate hh f) fs h g)) = dataEnd (signal (h g))"
  by (induction fs arbitrary: h) simp_all

lemma attenuateAll_range [simp]:
  "dataStart (signal (attenuateAll h sf fs g)) = dataStart (signal (h g))"
  "dataEnd (signal (attenuateAll h sf fs g)) = dataEnd (signal (h g))"
  by (simp_all add: attenuateAll_def)

text \<open>
  C10: when the reference signal's populated bin range is empty (\<open>dataStart = dataEnd\<close>),
  a call of \<open>getMinSINR\<close> that passes its two assertions and whose interference
  computation succeeds returns positive infinity: the fold starts from \<open>INFINITY\<close> and the
  loop over the range has no iteration. The heap it leaves is the attenuated one.
\<close>

theorem getMinSINR_empty_range:
  assumes "receptionStart (signal (h signalFrame)) \<le> start"
    and "endT \<le> receptionEnd (signal (h signalFrame))"
    and "getMaxInterference (attenuateAll h signalFrame interfererFrames) start endT
           signalFrame interfererFrames = Some m"
    and "dataStart (signal (h signalFrame)) = dataEnd (signal (h signalFrame))"
  shows "getMinSINR h start endT signalFrame interfererFrames noise
           = Some (PosInf, attenuateAll h signalFrame interfererFrames)"
  using assms by (simp add: getMinSINR_def Let_def)

lemma attenuateAll_exHeap: "attenuateAll exHeap 4 [1, 2] = exHeap"
  by (simp add: attenuateAll_def attenuate_def exHeap_def mkSignal_def
      applyAllAnalogueModels_def fun_upd_twist)

lemma getMaxInterference_exHeap:
  "getMaxInterference exHeap 2 8 4 [1, 2] = Some ((Signal_new [1, 2])\<lparr>samples := [5, 8]\<rparr>)"
  by (simp add: getMaxInterference_def exHeap_def mkSignal_def Signal_new_def
      plus_assign_def minus_assign_def combine_def sigAt_def set_at_def Let_def upt_rec)

text \<open>
  Witness for C10: frame 4 has no populated bin and is received on \<open>[0, 10)\<close>; over the
  window \<open>[2, 8]\<close> with interferers 1 and 2 its minimum SINR is positive infinity.
\<close>

theorem getMinSINR_empty_range_witness:
  "getMinSINR exHeap 2 8 4 [1, 2] 1 = Some (PosInf, exHeap)"
proof -
  have a: "receptionStart (signal (exHeap 4)) \<le> 2"
    by (simp add: exHeap_def mkSignal_def)
  have b: "8 \<le> receptionEnd (signal (exHeap 4))"
    by (simp add: exHeap_def mkSignal_def)
  have c: "getMaxInterference (attenuateAll exHeap 4 [1, 2]) 2 8 4 [1, 2]
             = Some ((Signal_new [1, 2])\<lparr>samples := [5, 8]\<rparr>)"
    unfolding attenuateAll_exHeap by (rule getMaxInterference_exHeap)
  have d: "dataStart (signal (exHeap 4)) = dataEnd (signal (exHeap 4))"
    by (simp add: exHeap_def mkSignal_def)
  show ?thesis
    using getMinSINR_empty_range [OF a b c d, of 1] unfolding attenuateAll_exHeap .
qed

subsection \<open>A single signal of constant power\<close>

lemma funpow_max_same: "(max p ^^ n) (p::real) = p"
  by (induction n) simp_all

lemma funpow_min_same: "(min p ^^ n) (p::real) = p"
  by (induction n) simp_all

lemma constant_list_replicate:
  "\<forall>x \<in> set xs. x = p \<Longrightarrow> xs = replicate (length xs) p"
  by (induction xs) auto

lemma reductions_constant:
  assumes "populated s \<noteq> []" and "\<forall>x \<in> set (populated s). x = p"
  shows "getMax s = p" and "getDataMin s = p"
proof -
  obtain x xs where xs: "populated s = x # xs"
    using assms(1) by (cases "populated s") auto
  have "x = p" and "xs = replicate (length xs) p"
    using assms(2) xs by (auto intro: constant_list_replicate)
  then obtain n where "populated s = p # replicate n p"
    using xs by auto
  then show "getMax s = p" and "getDataMin s = p"
    by (simp_all add: getMax_def getDataMin_def funpow_max_same funpow_min_same)
qed

lemma map2_add_replicate_zero:
  "n = length xs \<Longrightarrow> map2 (+) (replicate n (0::real)) xs = xs"
  by (induction xs arbitrary: n) auto

lemma plus_assign_new:
  assumes "length (samples s) = length (spectrum s)"
    and "dataStart s \<le> length (samples s)"
  shows "plus_assign (Signal_new (spectrum s)) s
           = Some ((Signal_new (spectrum s))\<lparr>samples := samples s,
                     dataStart := dataStart s, dataEnd := dataEnd s\<rparr>)"
  using assms
  by (simp add: plus_assign_def combine_def Signal_new_def map2_add_replicate_zero min_def)

lemma single_change:
  assumes "receptionStart (signal (h f)) \<le> start" "start \<le> endT"
    and "endT < receptionEnd (signal (h f))"
  shows "sortChanges (calculateChanges h start endT [f] None)
           = [\<lparr>sigPtr = f, changeType = starting, time = receptionStart (signal (h f))\<rparr>]"
  using assms by (auto simp: sortChanges_def Let_def)

text \<open>
  C2: the collection holds one frame; its signal has the power \<open>p\<close> on every populated bin
  (there is at least one, inside the sample vector, which is sized to the spectrum), and the
  window \<open>[start, end]\<close> lies in the reception interval \<open>[receptionStart, receptionEnd)\<close>.
  Then \<open>getGlobalMax\<close> and \<open>getGlobalMin\<close> both return \<open>p\<close>.
\<close>

theorem single_constant_signal:
  assumes rs: "receptionStart (signal (h f)) \<le> start"
    and win: "start \<le> endT"
    and re: "endT < receptionEnd (signal (h f))"
    and len: "length (samples (signal (h f))) = length (spectrum (signal (h f)))"
    and range: "dataStart (signal (h f)) < dataEnd (signal (h f))"
               "dataEnd (signal (h f)) \<le> length (samples (signal (h f)))"
    and const: "\<forall>i. dataStart (signal (h f)) \<le> i \<and> i < dataEnd (signal (h f))
                  \<longrightarrow> samples (signal (h f)) ! i = p"
  shows "getGlobalMax h start endT [f] = Some p \<and> getGlobalMin h start endT [f] = Some p"
proof -
  let ?s = "signal (h f)"
  let ?acc = "(Signal_new (spectrum ?s))\<lparr>samples := samples ?s,
                     dataStart := dataStart ?s, dataEnd := dataEnd ?s\<rparr>"
  have pa: "plus_assign (Signal_new (spectrum ?s)) ?s = Some ?acc"
    using len range by (intro plus_assign_new) simp_all
  have pop: "populated ?acc = drop (dataStart ?s) (take (dataEnd ?s) (samples ?s))"
    by (simp add: populated_def)
  have ne: "populated ?acc \<noteq> []"
    using range by (simp add: pop)
  have allp: "\<forall>x \<in> set (populated ?acc). x = p"
  proof
    fix x assume "x \<in> set (populated ?acc)"
    then obtain j where j: "j < length (populated ?acc)" "x = populated ?acc ! j"
      by (auto simp: in_set_conv_nth)
    then have "j < dataEnd ?s - dataStart ?s"
      using range by (simp add: pop)
    then have "x = samples ?s ! (dataStart ?s + j)" "dataStart ?s + j < dataEnd ?s"
      using j range by (simp_all add: pop)
    then show "x = p" using const by simp
  qed
  have mx: "getMax ?acc = p" and mn: "getDataMin ?acc = p"
    using reductions_constant [OF ne allp] by simp_all
  have pre: "preRoll h start (Signal_new (spectrum ?s))
               [\<lparr>sigPtr = f, changeType = starting, time = receptionStart ?s\<rparr>]
             = Some (?acc, [])"
    using rs pa by simp
  show ?thesis
    using single_change [of h f start endT, OF rs win re] pre mx mn
    by (simp add: getGlobalMax_def getGlobalMin_def sweepMax_def sweepMin_def)
qed

text \<open>
  Witness for C2: frame 1 has power 3 on both bins during \<open>[0, 10)\<close>; over the window
  \<open>[2, 8]\<close> the maximum and the minimum are 3.
\<close>

theorem single_constant_signal_witness:
  "getGlobalMax exHeap 2 8 [1] = Some 3 \<and> getGlobalMin exHeap 2 8 [1] = Some 3"
proof -
  have c: "\<forall>i. dataStart (signal (exHeap 1)) \<le> i \<and> i < dataEnd (signal (exHeap 1))
             \<longrightarrow> samples (signal (exHeap 1)) ! i = 3"
    by (simp add: exHeap_def mkSignal_def nth_Cons split: nat.split)
  show ?thesis
    by (rule single_constant_signal [of exHeap 1 2 8 3, OF _ _ _ _ _ _ c])
       (simp_all add: exHeap_def mkSignal_def)
qed

subsection \<open>The pre-roll\<close>




lemma set_sortChanges [simp]: "set (sortChanges cs) = set cs"
  by (simp add: sortChanges_def)










subsection \<open>The excluded frame\<close>

lemma maxInterferenceLoop_skips_reference:
  "maxInterferenceLoop h start endT refId spec frames st
     = maxInterferenceLoop h start endT refId spec
         (filter (\<lambda>f. treeId (h f) \<noteq> refId) frames) st"
proof (induction frames arbitrary: st)
  case Nil
  then show ?case by simp
next
  case (Cons f frames)
  show ?case
  proof (cases "treeId (h f) = refId")
    case True
    then show ?thesis using Cons.IH by simp
  next
    case False
    then show ?thesis
      by (simp add: Cons.IH Let_def cong: Option.bind_cong)
  qed
qed

lemma getMaxInterference_skips_reference:
  "getMaxInterference h start endT ref frames
     = getMaxInterference h start endT ref
         (filter (\<lambda>f. treeId (h f) \<noteq> treeId (h ref)) frames)"
  unfolding getMaxInterference_def
  by (subst maxInterferenceLoop_skips_reference) simp

lemma maxInterferenceLoop_heap_cong:
  "\<forall>a \<in> set frames. h1 a = h2 a \<Longrightarrow>
     maxInterferenceLoop h1 start endT refId spec frames st
       = maxInterferenceLoop h2 start endT refId spec frames st"
proof (induction frames arbitrary: st)
  case Nil
  then show ?case by simp
next
  case (Cons f frames)
  then have eq: "h1 f = h2 f" and rest: "\<forall>a \<in> set frames. h1 a = h2 a"
    by simp_all
  show ?case
    by (simp add: eq Cons.IH [OF rest] Let_def cong: Option.bind_cong)
qed

lemma getMaxInterference_heap_cong:
  "h1 ref = h2 ref \<Longrightarrow> \<forall>a \<in> set frames. h1 a = h2 a \<Longrightarrow>
     getMaxInterference h1 start endT ref frames = getMaxInterference h2 start endT ref frames"
  unfolding getMaxInterference_def
  by (simp add: maxInterferenceLoop_heap_cong [of frames h1 h2])

lemma fold_applyAnalogueModel_list [simp]:
  "analogueModelList (fold (\<lambda>index s'. applyAnalogueModel s' index) is s) = analogueModelList s"
  by (induction "is" arbitrary: s) (simp_all add: applyAnalogueModel_def)

lemma applyAnalogueModel_next:
  "numAnalogueModelsApplied s = n \<Longrightarrow> n < length (analogueModelList s) \<Longrightarrow>
     numAnalogueModelsApplied (applyAnalogueModel s n) = Suc n
     \<and> analogueModelList (applyAnalogueModel s n) = analogueModelList s"
  by (simp add: applyAnalogueModel_def)

lemma fold_applyAnalogueModel_count:
  "numAnalogueModelsApplied s = n \<Longrightarrow> n + k = length (analogueModelList s) \<Longrightarrow>
     numAnalogueModelsApplied
       (fold (\<lambda>index s'. applyAnalogueModel s' index) [n ..< n + k] s) = n + k"
proof (induction k arbitrary: n s)
  case 0
  then show ?case by simp
next
  case (Suc k)
  let ?s = "applyAnalogueModel s n"
  have nx: "numAnalogueModelsApplied ?s = Suc n" "analogueModelList ?s = analogueModelList s"
    using applyAnalogueModel_next [of s n] Suc.prems by simp_all
  have "Suc n + k = length (analogueModelList ?s)"
    using Suc.prems nx by simp
  from Suc.IH [OF nx(1) this]
  have "numAnalogueModelsApplied
           (fold (\<lambda>index s'. applyAnalogueModel s' index) [Suc n ..< Suc n + k] ?s)
         = Suc n + k" .
  moreover have "[n ..< n + Suc k] = n # [Suc n ..< Suc n + k]"
    by (simp add: upt_conv_Cons)
  ultimately show ?case by simp
qed

lemma applyAllAnalogueModels_count:
  assumes "numAnalogueModelsApplied s \<le> length (analogueModelList s)"
  shows "numAnalogueModelsApplied (applyAllAnalogueModels s) = length (analogueModelList s)"
proof -
  obtain k where k: "length (analogueModelList s) = numAnalogueModelsApplied s + k"
    using assms le_Suc_ex by blast
  have "numAnalogueModelsApplied
          (fold (\<lambda>index s'. applyAnalogueModel s' index)
             [numAnalogueModelsApplied s ..< numAnalogueModelsApplied s + k] s)
        = numAnalogueModelsApplied s + k"
    by (rule fold_applyAnalogueModel_count [OF refl k [symmetric]])
  then show ?thesis
    unfolding applyAllAnalogueModels_def k .
qed

lemma applyAllAnalogueModels_idem:
  "applyAllAnalogueModels (applyAllAnalogueModels s) = applyAllAnalogueModels s"
proof (cases "numAnalogueModelsApplied s \<le> length (analogueModelList s)")
  case True
  have l: "analogueModelList (applyAllAnalogueModels s) = analogueModelList s"
    by (simp add: applyAllAnalogueModels_def)
  have "applyAllAnalogueModels (applyAllAnalogueModels s)
          = fold (\<lambda>index s'. applyAnalogueModel s' index)
              [numAnalogueModelsApplied (applyAllAnalogueModels s)
                 ..< length (analogueModelList (applyAllAnalogueModels s))]
              (applyAllAnalogueModels s)"
    by (rule applyAllAnalogueModels_def)
  also have "\<dots> = fold (\<lambda>index s'. applyAnalogueModel s' index)
              [length (analogueModelList s) ..< length (analogueModelList s)]
              (applyAllAnalogueModels s)"
    by (simp only: l applyAllAnalogueModels_count [OF True])
  also have "\<dots> = applyAllAnalogueModels s"
    by simp
  finally show ?thesis .
next
  case False
  then have "applyAllAnalogueModels s = s"
    by (simp add: applyAllAnalogueModels_def)
  then show ?thesis by simp
qed

lemma fold_attenuate_at:
  "fold (\<lambda>f hh. attenuate hh f) fs h0 a
     = (if a \<in> set fs then (h0 a)\<lparr>signal := applyAllAnalogueModels (signal (h0 a))\<rparr> else h0 a)"
  by (induction fs arbitrary: h0) (auto simp: attenuate_def applyAllAnalogueModels_idem)

lemma attenuateAll_at:
  "attenuateAll h sf fs a
     = (if a = sf \<or> a \<in> set fs then (h a)\<lparr>signal := applyAllAnalogueModels (signal (h a))\<rparr>
        else h a)"
  by (simp add: attenuateAll_def fold_attenuate_at)
     (auto simp: attenuate_def applyAllAnalogueModels_idem)

lemma getMinSINR_skips_reference:
  "map_option fst (getMinSINR h start endT ref frames noise)
     = map_option fst (getMinSINR h start endT ref
         (filter (\<lambda>f. treeId (h f) \<noteq> treeId (h ref)) frames) noise)"
proof -
  let ?fs = "filter (\<lambda>f. treeId (h f) \<noteq> treeId (h ref)) frames"
  let ?h1 = "attenuateAll h ref frames" and ?h2 = "attenuateAll h ref ?fs"
  have ids: "\<And>a. treeId (?h1 a) = treeId (h a)"
    by (simp add: attenuateAll_at)
  have "getMaxInterference ?h1 start endT ref frames
          = getMaxInterference ?h1 start endT ref (filter (\<lambda>f. treeId (?h1 f) \<noteq> treeId (?h1 ref)) frames)"
    by (rule getMaxInterference_skips_reference)
  also have "\<dots> = getMaxInterference ?h1 start endT ref ?fs"
    by (simp add: ids)
  also have "\<dots> = getMaxInterference ?h2 start endT ref ?fs"
    by (rule getMaxInterference_heap_cong) (auto simp: attenuateAll_at)
  finally have mi: "getMaxInterference ?h1 start endT ref frames
                      = getMaxInterference ?h2 start endT ref ?fs" .
  have sg: "signal (?h1 ref) = signal (?h2 ref)"
    by (simp add: attenuateAll_at)
  show ?thesis
    by (simp add: getMinSINR_def Let_def mi sg map_option_bind cong: Option.bind_cong)
qed

lemma calculateChanges_skips_excluded:
  "calculateChanges h start endT frames (Some x)
     = calculateChanges h start endT (filter (\<lambda>f. f \<noteq> x) frames) (Some x)"
  by (induction frames) (auto simp: Let_def)

lemma getMinAtFreqIndex_skips_excluded:
  "getMinAtFreqIndex h start endT frames i (Some x)
     = getMinAtFreqIndex h start endT (filter (\<lambda>f. f \<noteq> x) frames) i (Some x)"
proof -
  have "filter (\<lambda>f. f \<noteq> x) frames = [] \<Longrightarrow> calculateChanges h start endT frames (Some x) = []"
    by (subst calculateChanges_skips_excluded) simp
  then show ?thesis
    unfolding getMinAtFreqIndex_def
    by (subst (1 2) calculateChanges_skips_excluded) (auto simp: Let_def sortChanges_def)
qed

lemma isChannelPowerBelowThreshold_skips_excluded:
  assumes "frames \<noteq> []" "hd frames \<noteq> x"
  shows "isChannelPowerBelowThreshold h now frames i thr (Some x)
     = isChannelPowerBelowThreshold h now (filter (\<lambda>f. f \<noteq> x) frames) i thr (Some x)"
proof -
  obtain f fs where fr: "frames = f # fs" "f \<noteq> x"
    using assms by (cases frames) auto
  have "activeInterferers h now (filter (\<lambda>f. f \<noteq> x) frames) (Some x)
          = activeInterferers h now frames (Some x)"
    by (auto simp: activeInterferers_def intro: filter_cong)
  then show ?thesis
    using fr by (simp add: isChannelPowerBelowThreshold_def Let_def cong: if_cong)
qed

text \<open>
  C3, as the code has it. \<open>getMaxInterference\<close> and \<open>getMinSINR\<close> leave out every
  frame whose transport identity (\<open>treeId\<close>) is the reference frame's, whichever object
  it is: the result is that of the collection without these frames. \<open>getMinAtFreqIndex\<close>
  leaves out the frame object passed as \<open>exclude\<close>: the result is that of the collection
  without that object. \<open>isChannelPowerBelowThreshold\<close> leaves that object out of the
  interferers whose power it sums, wherever it stands in the collection; when it is not the
  first frame of a non-empty collection (the first frame supplies the number of attenuation
  stages) the answer and the heap are those of the collection without it.
\<close>

theorem excluded_frame_contributes_nothing:
  "getMaxInterference h start endT ref frames
     = getMaxInterference h start endT ref
         (filter (\<lambda>f. treeId (h f) \<noteq> treeId (h ref)) frames)
   \<and> map_option fst (getMinSINR h start endT ref frames noise)
     = map_option fst (getMinSINR h start endT ref
         (filter (\<lambda>f. treeId (h f) \<noteq> treeId (h ref)) frames) noise)
   \<and> getMinAtFreqIndex h start endT frames freqIndex (Some x)
     = getMinAtFreqIndex h start endT (filter (\<lambda>f. f \<noteq> x) frames) freqIndex (Some x)
   \<and> (frames \<noteq> [] \<and> hd frames \<noteq> x \<longrightarrow>
        isChannelPowerBelowThreshold h now frames freqIndex threshold (Some x)
          = isChannelPowerBelowThreshold h now (filter (\<lambda>f. f \<noteq> x) frames)
              freqIndex threshold (Some x))
   \<and> x \<notin> set (activeInterferers h now frames (Some x))"
proof -
  have "x \<notin> set (activeInterferers h now frames (Some x))"
    by (simp add: activeInterferers_def)
  then show ?thesis
    using getMaxInterference_skips_reference [of h start endT ref frames]
      getMinSINR_skips_reference [of h start endT ref frames noise]
      getMinAtFreqIndex_skips_excluded [of h start endT frames freqIndex x]
      isChannelPowerBelowThreshold_skips_excluded [of frames x h now freqIndex threshold]
    by blast
qed

lemma getMaxInterference_exHeap_2:
  "getMaxInterference exHeap 0 10 1 [2] = Some ((Signal_new [1, 2])\<lparr>samples := [2, 5]\<rparr>)"
  by (simp add: getMaxInterference_def exHeap_def mkSignal_def Signal_new_def
      plus_assign_def minus_assign_def combine_def sigAt_def set_at_def Let_def upt_rec)

lemma getMinSINR_exHeap_2:
  "map_option fst (getMinSINR exHeap 0 10 1 [2] 1) = Some (Finite (1 / 2))"
  by (simp add: getMinSINR_def attenuateAll_def attenuate_def applyAllAnalogueModels_def
      getMaxInterference_def exHeap_def mkSignal_def Signal_new_def
      plus_assign_def minus_assign_def combine_def sigAt_def set_at_def Let_def upt_rec
      dmin_def ddiv_def)

lemma getMinAtFreqIndex_exHeap_23:
  "getMinAtFreqIndex exHeap 0 10 [2, 3] 0 (Some 1) = Some 2"
  by (simp add: getMinAtFreqIndex_def sortChanges_def sweepMinAt_def applyChangeAt_def
      exHeap_def mkSignal_def sigAt_def Let_def)

lemma isChannelPowerBelowThreshold_exHeap_23:
  "isChannelPowerBelowThreshold exHeap 7 [2, 3] 0 6 (Some 1) = Some (True, exHeap)"
  by (simp add: isChannelPowerBelowThreshold_def activeInterferers_def
      exHeap_def mkSignal_def sigAt_def Let_def)

text \<open>
  Witness for C3: the collection is \<open>[2, 1, 3]\<close>, the reference and excluded frame is
  frame 1. By transport identity frames 1 and 3 drop out, by object identity frame 1 only.
\<close>

theorem excluded_frame_contributes_nothing_witness:
  "getMaxInterference exHeap 0 10 1 [2, 1, 3] = Some ((Signal_new [1, 2])\<lparr>samples := [2, 5]\<rparr>)
   \<and> map_option fst (getMinSINR exHeap 0 10 1 [2, 1, 3] 1) = Some (Finite (1 / 2))
   \<and> getMinAtFreqIndex exHeap 0 10 [2, 1, 3] 0 (Some 1) = Some 2
   \<and> isChannelPowerBelowThreshold exHeap 7 [2, 1, 3] 0 6 (Some 1) = Some (True, exHeap)
   \<and> 1 \<notin> set (activeInterferers exHeap 7 [2, 1, 3] (Some 1))"
proof -
  have byId: "filter (\<lambda>f. treeId (exHeap f) \<noteq> treeId (exHeap 1)) [2, 1, 3] = [2]"
    by (simp add: exHeap_def)
  have byObject: "filter (\<lambda>f. f \<noteq> 1) [2, 1, 3 :: nat] = [2, 3]"
    by simp
  have first: "[2, 1, 3 :: nat] \<noteq> [] \<and> hd [2, 1, 3 :: nat] \<noteq> 1"
    by simp
  note T = excluded_frame_contributes_nothing
             [of exHeap 0 10 1 "[2, 1, 3]" 1 0 1 7 6, unfolded byId byObject]
  show ?thesis
    using T first
    unfolding getMaxInterference_exHeap_2 getMinSINR_exHeap_2 getMinAtFreqIndex_exHeap_23
      isChannelPowerBelowThreshold_exHeap_23
    by blast
qed

text \<open>
  C3 as stated fails where the exclusion is by pointer. Frame 3 is a distinct object with
  the transport identity and the signal of the excluded frame 1, and it contributes: with
  it the minimum at bin 0 over \<open>[5, 9]\<close> is 5 and the channel is not below the threshold
  4 at instant 7; without it the minimum is 2 and the channel is below the threshold.
\<close>

theorem duplicate_of_excluded_frame_counterexample:
  "treeId (exHeap 3) = treeId (exHeap 1) \<and> signal (exHeap 3) = signal (exHeap 1)
   \<and> getMinAtFreqIndex exHeap 5 9 [2, 3] 0 (Some 1) = Some 5
   \<and> getMinAtFreqIndex exHeap 5 9 [2] 0 (Some 1) = Some 2
   \<and> isChannelPowerBelowThreshold exHeap 7 [2, 3] 0 4 (Some 1) = Some (False, exHeap)
   \<and> isChannelPowerBelowThreshold exHeap 7 [2] 0 4 (Some 1) = Some (True, exHeap)"
  by (simp add: getMinAtFreqIndex_def sortChanges_def sweepMinAt_def applyChangeAt_def
      isChannelPowerBelowThreshold_def activeInterferers_def
      exHeap_def mkSignal_def sigAt_def Let_def)


subsection \<open>Events with equal timestamps\<close>

lemma commutingD:
  "commuting app \<Longrightarrow> (app a acc \<bind> (\<lambda>x. app b x \<bind> K)) = (app b acc \<bind> (\<lambda>x. app a x \<bind> K))"
proof -
  assume c: "commuting app"
  have "(app a acc \<bind> (\<lambda>x. app b x \<bind> K)) = ((app a acc \<bind> app b) \<bind> K)"
    by (cases "app a acc") simp_all
  also have "\<dots> = ((app b acc \<bind> app a) \<bind> K)"
    using c by (simp add: commuting_def)
  also have "\<dots> = (app b acc \<bind> (\<lambda>x. app a x \<bind> K))"
    by (cases "app b acc") simp_all
  finally show ?thesis .
qed

lemma sweepChunks_bubble:
  assumes "commuting app" and "\<forall>u \<in> set us. time u = time c"
  shows "sweepChunks app upd acc ext (us @ c # vs) = sweepChunks app upd acc ext (c # us @ vs)"
  using assms(2)
proof (induction us arbitrary: acc)
  case Nil
  then show ?case by simp
next
  case (Cons u us)
  then have tu: "time u = time c" and rest: "\<forall>u \<in> set us. time u = time c"
    by simp_all
  have hd1: "time (hd (us @ c # vs)) = time c"
    using rest by (cases us) simp_all
  have "sweepChunks app upd acc ext ((u # us) @ c # vs)
          = app u acc \<bind> (\<lambda>x. sweepChunks app upd x ext (us @ c # vs))"
    using tu hd1 by simp
  also have "\<dots> = app u acc \<bind> (\<lambda>x. sweepChunks app upd x ext (c # us @ vs))"
    using Cons.IH [OF rest] by simp
  also have "\<dots> = app u acc \<bind> (\<lambda>x. app c x \<bind> (\<lambda>y.
        if us @ vs = [] \<or> time c \<noteq> time (hd (us @ vs))
        then sweepChunks app upd y (upd y ext) (us @ vs)
        else sweepChunks app upd y ext (us @ vs)))"
    by simp
  also have "\<dots> = app c acc \<bind> (\<lambda>x. app u x \<bind> (\<lambda>y.
        if us @ vs = [] \<or> time c \<noteq> time (hd (us @ vs))
        then sweepChunks app upd y (upd y ext) (us @ vs)
        else sweepChunks app upd y ext (us @ vs)))"
    by (rule commutingD [OF assms(1)])
  also have "\<dots> = sweepChunks app upd acc ext (c # (u # us) @ vs)"
    using tu by simp
  finally show ?case .
qed

lemma sweepPreRoll_bubble:
  assumes "commuting add" and "\<forall>u \<in> set us. time u = time c" and early: "\<not> time c > start"
  shows "sweepPreRoll add start acc (us @ c # vs) = sweepPreRoll add start acc (c # us @ vs)"
  using assms(2)
proof (induction us arbitrary: acc)
  case Nil
  then show ?case by simp
next
  case (Cons u us)
  then have tu: "time u = time c" and rest: "\<forall>u \<in> set us. time u = time c"
    by simp_all
  note False = early
  have "sweepPreRoll add start acc ((u # us) @ c # vs)
          = add u acc \<bind> (\<lambda>x. sweepPreRoll add start x (us @ c # vs))"
    using tu False by simp
  also have "\<dots> = add u acc \<bind> (\<lambda>x. sweepPreRoll add start x (c # us @ vs))"
    using Cons.IH [OF rest] by simp
  also have "\<dots> = add u acc \<bind> (\<lambda>x. add c x \<bind> (\<lambda>y. sweepPreRoll add start y (us @ vs)))"
    using False by simp
  also have "\<dots> = add c acc \<bind> (\<lambda>x. add u x \<bind> (\<lambda>y. sweepPreRoll add start y (us @ vs)))"
    by (rule commutingD [OF assms(1)])
  also have "\<dots> = sweepPreRoll add start acc (c # (u # us) @ vs)"
    using tu False by simp
  finally show ?case .
qed

lemma sorted_hd_least:
  assumes "sorted (map time xs)" "x \<in> set xs"
  shows "time (hd xs) \<le> time x"
proof (cases xs)
  case Nil
  with assms(2) show ?thesis by simp
next
  case (Cons y ys)
  then have "\<forall>z \<in> set ys. time y \<le> time z"
    using assms(1) by simp
  with Cons assms(2) show ?thesis by auto
qed

lemma sorted_hd_time:
  assumes "sorted (map time xs)" "sorted (map time ys)" "mset xs = mset ys" "xs \<noteq> []"
  shows "time (hd xs) = time (hd ys)"
proof -
  have ne: "ys \<noteq> []" using assms(3,4) by auto
  have s: "set xs = set ys" using assms(3) by (rule mset_eq_setD)
  have "hd xs \<in> set xs" "hd ys \<in> set ys"
    using assms(4) ne by simp_all
  then have "hd xs \<in> set ys" "hd ys \<in> set xs"
    using s by simp_all
  then have "time (hd ys) \<le> time (hd xs)" "time (hd xs) \<le> time (hd ys)"
    using sorted_hd_least [OF assms(2)] sorted_hd_least [OF assms(1)] by blast+
  then show ?thesis by simp
qed

lemma sorted_split_head:
  assumes "sorted (map time (c # cs))" "sorted (map time cs')" "mset (c # cs) = mset cs'"
  obtains us vs where "cs' = us @ c # vs" "\<forall>u \<in> set us. time u = time c"
    "mset cs = mset (us @ vs)" "sorted (map time (us @ vs))"
proof -
  have "c \<in> set cs'"
    using assms(3) by (metis list.set_intros(1) mset_eq_setD)
  then obtain us vs where sp: "cs' = us @ c # vs"
    by (auto dest: split_list)
  have ge: "\<forall>x \<in> set cs'. time c \<le> time x"
    using assms(1) mset_eq_setD [OF assms(3)] by auto
  have le: "\<forall>u \<in> set us. time u \<le> time c"
    using assms(2) by (auto simp: sp sorted_append)
  have eq: "\<forall>u \<in> set us. time u = time c"
    using ge le by (fastforce simp: sp intro: order.antisym)
  have m: "mset cs = mset (us @ vs)"
    using assms(3) by (simp add: sp)
  have st: "sorted (map time (us @ vs))"
    using assms(2) by (auto simp: sp sorted_append)
  show thesis using that [OF sp eq m st] .
qed

lemma sweepChunks_sorted_perm:
  assumes "commuting app"
  shows "sorted (map time cs) \<Longrightarrow> sorted (map time cs') \<Longrightarrow> mset cs = mset cs' \<Longrightarrow>
           sweepChunks app upd acc ext cs = sweepChunks app upd acc ext cs'"
proof (induction cs arbitrary: cs' acc ext)
  case Nil
  then show ?case by simp
next
  case (Cons c cs)
  from sorted_split_head [OF Cons.prems] obtain us vs where
    sp: "cs' = us @ c # vs" and eq: "\<forall>u \<in> set us. time u = time c"
    and m: "mset cs = mset (us @ vs)" and st: "sorted (map time (us @ vs))"
    by blast
  have sc: "sorted (map time cs)" using Cons.prems(1) by simp
  have IH: "\<And>acc ext. sweepChunks app upd acc ext cs = sweepChunks app upd acc ext (us @ vs)"
    using Cons.IH [OF sc st m] .
  have cond: "(cs = [] \<or> time c \<noteq> time (hd cs))
                = (us @ vs = [] \<or> time c \<noteq> time (hd (us @ vs)))"
  proof (cases "cs = []")
    case True
    then have "us @ vs = []" using m by (metis mset_zero_iff)
    with True show ?thesis by simp
  next
    case False
    then have "us @ vs \<noteq> []" using m by (metis mset_zero_iff)
    moreover have "time (hd cs) = time (hd (us @ vs))"
      using sorted_hd_time [OF sc st m False] .
    ultimately show ?thesis using False by auto
  qed
  have "sweepChunks app upd acc ext cs' = sweepChunks app upd acc ext (c # us @ vs)"
    unfolding sp by (rule sweepChunks_bubble [OF assms eq])
  also have "\<dots> = sweepChunks app upd acc ext (c # cs)"
    by (simp only: sweepChunks.simps cond IH)
  finally show ?case by simp
qed

lemma sweepBoth_sorted_perm:
  assumes "commuting add" "commuting app"
  shows "sorted (map time cs) \<Longrightarrow> sorted (map time cs') \<Longrightarrow> mset cs = mset cs' \<Longrightarrow>
           sweepBoth add app upd seed start acc cs = sweepBoth add app upd seed start acc cs'"
proof (induction cs arbitrary: cs' acc)
  case Nil
  then show ?case by simp
next
  case (Cons c cs)
  show ?case
  proof (cases "time c > start")
    case True
    have ne: "cs' \<noteq> []" using Cons.prems(3) by auto
    have "time (hd cs') = time c"
      using sorted_hd_time [OF Cons.prems(1,2,3)] by simp
    then have "sweepPreRoll add start acc cs' = Some (acc, cs')"
      using True ne by (cases cs') simp_all
    then show ?thesis
      using True sweepChunks_sorted_perm [OF assms(2) Cons.prems]
      by (simp add: sweepBoth_def)
  next
    case False
    from sorted_split_head [OF Cons.prems] obtain us vs where
      sp: "cs' = us @ c # vs" and eq: "\<forall>u \<in> set us. time u = time c"
      and m: "mset cs = mset (us @ vs)" and st: "sorted (map time (us @ vs))"
      by blast
    have sc: "sorted (map time cs)" using Cons.prems(1) by simp
    have IH: "\<And>acc. sweepBoth add app upd seed start acc cs
                     = sweepBoth add app upd seed start acc (us @ vs)"
      using Cons.IH [OF sc st m] .
    have "sweepBoth add app upd seed start acc cs'
            = sweepBoth add app upd seed start acc (c # us @ vs)"
      unfolding sp sweepBoth_def by (simp only: sweepPreRoll_bubble [OF assms(1) eq False])
    also have "\<dots> = add c acc \<bind> (\<lambda>x. sweepBoth add app upd seed start x (us @ vs))"
      using False by (simp add: sweepBoth_def)
    also have "\<dots> = add c acc \<bind> (\<lambda>x. sweepBoth add app upd seed start x cs)"
      by (simp add: IH)
    also have "\<dots> = sweepBoth add app upd seed start acc (c # cs)"
      using False by (simp add: sweepBoth_def)
    finally show ?thesis by simp
  qed
qed

lemma map2_exchange:
  assumes "\<And>a b c. g (f a b) c = f (g a c) b"
  shows "map2 g (map2 f xs ys) zs = map2 f (map2 g xs zs) ys"
proof (induction xs arbitrary: ys zs)
  case Nil
  then show ?case by simp
next
  case (Cons x xs)
  then show ?case
    by (cases ys; cases zs) (simp_all add: assms)
qed

lemma combine_exchange:
  assumes "\<And>a b c. g (f a b) c = f (g a c) b"
  shows "(combine f acc s1 \<bind> (\<lambda>x. combine g x s2))
           = (combine g acc s2 \<bind> (\<lambda>x. combine f x s1))"
  using map2_exchange [of g f, OF assms]
  by (simp add: combine_def min.assoc min.left_commute max.left_commute min.commute max.commute)

lemma commuting_plus_assign:
  "commuting (\<lambda>c a. plus_assign a (signal (h (sigPtr c))))"
  unfolding commuting_def plus_assign_def
  by (intro allI combine_exchange) simp

lemma applyChange_cases:
  "changeType c = starting \<Longrightarrow>
     applyChange h c = (\<lambda>acc. combine (+) acc (signal (h (sigPtr c))))"
  "changeType c = ending \<Longrightarrow>
     applyChange h c = (\<lambda>acc. combine (-) acc (signal (h (sigPtr c))))"
  "changeType c = nothing \<Longrightarrow> applyChange h c = Some"
  by (simp_all add: applyChange_def plus_assign_def minus_assign_def fun_eq_iff)

lemma commuting_applyChange: "commuting (applyChange h)"
  unfolding commuting_def
proof (intro allI)
  fix a b :: SignalChange and acc :: Signal
  let ?sa = "signal (h (sigPtr a))" and ?sb = "signal (h (sigPtr b))"
  have pp: "(combine (+) acc ?sa \<bind> (\<lambda>x. combine (+) x ?sb))
           = (combine (+) acc ?sb \<bind> (\<lambda>x. combine (+) x ?sa))"
    by (rule combine_exchange) simp
  have mm: "(combine (-) acc ?sa \<bind> (\<lambda>x. combine (-) x ?sb))
           = (combine (-) acc ?sb \<bind> (\<lambda>x. combine (-) x ?sa))"
    by (rule combine_exchange) simp
  have pm: "(combine (+) acc ?sa \<bind> (\<lambda>x. combine (-) x ?sb))
           = (combine (-) acc ?sb \<bind> (\<lambda>x. combine (+) x ?sa))"
    by (rule combine_exchange) simp
  have mp: "(combine (-) acc ?sa \<bind> (\<lambda>x. combine (+) x ?sb))
           = (combine (+) acc ?sb \<bind> (\<lambda>x. combine (-) x ?sa))"
    by (rule combine_exchange) simp
  show "(applyChange h a acc \<bind> applyChange h b) = (applyChange h b acc \<bind> applyChange h a)"
  proof (cases "changeType a")
    case nothing
    then show ?thesis by (simp add: applyChange_cases(3) [of a])
  next
    case starting
    note a = this
    show ?thesis
    proof (cases "changeType b")
      case nothing
      then show ?thesis by (simp add: applyChange_cases(3) [of b])
    next
      case starting
      show ?thesis
        unfolding applyChange_cases(1) [OF a] applyChange_cases(1) [OF starting] by (rule pp)
    next
      case ending
      show ?thesis
        unfolding applyChange_cases(1) [OF a] applyChange_cases(2) [OF ending] by (rule pm)
    qed
  next
    case ending
    note a = this
    show ?thesis
    proof (cases "changeType b")
      case nothing
      then show ?thesis by (simp add: applyChange_cases(3) [of b])
    next
      case starting
      show ?thesis
        unfolding applyChange_cases(2) [OF a] applyChange_cases(1) [OF starting] by (rule mp)
    next
      case ending
      show ?thesis
        unfolding applyChange_cases(2) [OF a] applyChange_cases(2) [OF ending] by (rule mm)
    qed
  qed
qed

lemma commuting_addAt:
  "commuting (\<lambda>c (a::real). sigAt (signal (h (sigPtr c))) i \<bind> (\<lambda>p. Some (a + p)))"
  unfolding commuting_def
  by (auto simp: sigAt_def)

lemma commuting_applyChangeAt: "commuting (applyChangeAt h i)"
  unfolding commuting_def
  by (auto simp: applyChangeAt_def [abs_def] sigAt_def)

lemma preRoll_generic:
  "preRoll h start acc cs
     = sweepPreRoll (\<lambda>c a. plus_assign a (signal (h (sigPtr c)))) start acc cs"
  by (induction cs arbitrary: acc) (simp_all cong: Option.bind_cong)

lemma preRollAt_generic:
  "preRollAt h start i acc cs
     = sweepPreRoll (\<lambda>c a. sigAt (signal (h (sigPtr c))) i \<bind> (\<lambda>p. Some (a + p))) start acc cs"
  by (induction cs arbitrary: acc) (simp_all cong: Option.bind_cong)

lemma chunksMax_generic:
  "chunksMax h acc m cs
     = sweepChunks (applyChange h)
         (\<lambda>a m. let tmpMax = getMax a in if tmpMax > m then tmpMax else m) acc m cs"
  by (induction cs arbitrary: acc m) (simp_all add: Let_def cong: Option.bind_cong if_cong)

lemma chunksMin_generic:
  "chunksMin h acc m cs
     = sweepChunks (applyChange h)
         (\<lambda>a m. let tmpMin = getDataMin a in if tmpMin < m then tmpMin else m) acc m cs"
  by (induction cs arbitrary: acc m) (simp_all add: Let_def cong: Option.bind_cong if_cong)

lemma chunksMinAt_generic:
  "chunksMinAt h i acc m cs
     = sweepChunks (applyChangeAt h i) (\<lambda>a m. if a < m then a else m) acc m cs"
  by (induction cs arbitrary: acc m) (simp_all add: Let_def cong: Option.bind_cong if_cong)

lemma sweepMax_generic:
  "sweepMax h start spec cs
     = sweepBoth (\<lambda>c a. plus_assign a (signal (h (sigPtr c)))) (applyChange h)
         (\<lambda>a m. let tmpMax = getMax a in if tmpMax > m then tmpMax else m) getMax
         start (Signal_new spec) cs"
  by (simp add: sweepMax_def sweepBoth_def preRoll_generic chunksMax_generic)

lemma sweepMin_generic:
  "sweepMin h start spec cs
     = sweepBoth (\<lambda>c a. plus_assign a (signal (h (sigPtr c)))) (applyChange h)
         (\<lambda>a m. let tmpMin = getDataMin a in if tmpMin < m then tmpMin else m) getDataMin
         start (Signal_new spec) cs"
  by (simp add: sweepMin_def sweepBoth_def preRoll_generic chunksMin_generic)

lemma sweepMinAt_generic:
  "sweepMinAt h start i cs
     = sweepBoth (\<lambda>c a. sigAt (signal (h (sigPtr c))) i \<bind> (\<lambda>p. Some (a + p)))
         (applyChangeAt h i) (\<lambda>a m. if a < m then a else m) (\<lambda>a. a) start 0 cs"
  by (simp add: sweepMinAt_def sweepBoth_def preRollAt_generic chunksMinAt_generic)

lemma sweepChunks_block:
  assumes "\<forall>u \<in> set us. time u = time c" and "rest = [] \<or> time c \<noteq> time (hd rest)"
  shows "sweepChunks app upd acc ext (us @ c # rest)
           = applyEvents app (us @ [c]) acc \<bind> (\<lambda>a. sweepChunks app upd a (upd a ext) rest)"
  using assms(1)
proof (induction us arbitrary: acc)
  case Nil
  then show ?case using assms(2) by (auto cong: Option.bind_cong)
next
  case (Cons u us)
  then have tu: "time u = time c" and rest: "\<forall>u \<in> set us. time u = time c"
    by simp_all
  have hd1: "time (hd (us @ c # rest)) = time c"
    using rest by (cases us) simp_all
  have "sweepChunks app upd acc ext ((u # us) @ c # rest)
          = app u acc \<bind> (\<lambda>x. sweepChunks app upd x ext (us @ c # rest))"
    using tu hd1 by simp
  also have "\<dots> = app u acc \<bind> (\<lambda>x. applyEvents app (us @ [c]) x
                        \<bind> (\<lambda>a. sweepChunks app upd a (upd a ext) rest))"
    using Cons.IH [OF rest] by simp
  also have "\<dots> = applyEvents app ((u # us) @ [c]) acc
                        \<bind> (\<lambda>a. sweepChunks app upd a (upd a ext) rest)"
    by (cases "app u acc") simp_all
  finally show ?case .
qed

text \<open>
  In exact arithmetic the tie order is irrelevant, as the comment on \<open>compareByTime\<close>
  says: two event lists that are both sorted by time and hold the same events give the same
  result in the sweeps of the model with exact sums. In each second loop a run of events
  with one timestamp, followed by a later event or by none, is applied to the accumulator in
  full, and the extremum is folded in once, after the last event of the run; this second
  part does not depend on the arithmetic.
\<close>

lemma exact_sweeps_ignore_tie_order:
  assumes "sorted (map time cs)" "sorted (map time cs')" "mset cs = mset cs'"
  shows "sweepMax h start spec cs = sweepMax h start spec cs'
       \<and> sweepMin h start spec cs = sweepMin h start spec cs'
       \<and> sweepMinAt h start freqIndex cs = sweepMinAt h start freqIndex cs'
       \<and> ((\<forall>u \<in> set us. time u = time c) \<and> (rest = [] \<or> time c \<noteq> time (hd rest)) \<longrightarrow>
            chunksMax h acc m (us @ c # rest)
              = applyEvents (applyChange h) (us @ [c]) acc \<bind>
                  (\<lambda>a. chunksMax h a (let tmpMax = getMax a in if tmpMax > m then tmpMax else m) rest)
          \<and> chunksMin h acc m (us @ c # rest)
              = applyEvents (applyChange h) (us @ [c]) acc \<bind>
                  (\<lambda>a. chunksMin h a (let tmpMin = getDataMin a in if tmpMin < m then tmpMin else m) rest)
          \<and> chunksMinAt h freqIndex accAt m (us @ c # rest)
              = applyEvents (applyChangeAt h freqIndex) (us @ [c]) accAt \<bind>
                  (\<lambda>a. chunksMinAt h freqIndex a (if a < m then a else m) rest))"
proof -
  have perm: "sweepMax h start spec cs = sweepMax h start spec cs'
       \<and> sweepMin h start spec cs = sweepMin h start spec cs'
       \<and> sweepMinAt h start freqIndex cs = sweepMinAt h start freqIndex cs'"
    unfolding sweepMax_generic sweepMin_generic sweepMinAt_generic
    using sweepBoth_sorted_perm [OF commuting_plus_assign commuting_applyChange assms]
          sweepBoth_sorted_perm [OF commuting_addAt commuting_applyChangeAt assms]
    by blast
  have block: "chunksMax h acc m (us @ c # rest)
              = applyEvents (applyChange h) (us @ [c]) acc \<bind>
                  (\<lambda>a. chunksMax h a (let tmpMax = getMax a in if tmpMax > m then tmpMax else m) rest)
          \<and> chunksMin h acc m (us @ c # rest)
              = applyEvents (applyChange h) (us @ [c]) acc \<bind>
                  (\<lambda>a. chunksMin h a (let tmpMin = getDataMin a in if tmpMin < m then tmpMin else m) rest)
          \<and> chunksMinAt h freqIndex accAt m (us @ c # rest)
              = applyEvents (applyChangeAt h freqIndex) (us @ [c]) accAt \<bind>
                  (\<lambda>a. chunksMinAt h freqIndex a (if a < m then a else m) rest)"
    if "\<forall>u \<in> set us. time u = time c" "rest = [] \<or> time c \<noteq> time (hd rest)"
    unfolding chunksMax_generic chunksMin_generic chunksMinAt_generic
    by (intro conjI; rule sweepChunks_block [OF that])
  show ?thesis using perm block by blast
qed

lemma roundDouble_values:
  "roundDouble 0 = 0"
  "roundDouble 1 = 1"
  "roundDouble 2 = 2"
  "roundDouble 10000000000000000 = 10000000000000000"
  "roundDouble 10000000000000001 = 10000000000000000"
  by (simp add: roundDouble_def) code_simp+

text \<open>
  Next to \<open>10^16\<close> the representable numbers are the even integers; an odd integer lies
  half-way between two of them and goes to the one with the even significand.
\<close>

lemma roundDouble_spacing:
  "roundDouble 10000000000000002 = 10000000000000002"
  "roundDouble 10000000000000003 = 10000000000000004"
  "roundDouble 9999999999999999 = 10000000000000000"
  "roundDouble 9007199254740993 = 9007199254740992"
  "roundDouble (- 10000000000000001) = - 10000000000000000"
  by code_simp+

lemma rounding_changes:
  "sortChanges (calculateChanges roundingHeap 0 8 [1, 2, 3] None)
     = [\<lparr>sigPtr = 1, changeType = starting, time = 0\<rparr>,
        \<lparr>sigPtr = 1, changeType = ending, time = 5\<rparr>,
        \<lparr>sigPtr = 2, changeType = starting, time = 5\<rparr>,
        \<lparr>sigPtr = 3, changeType = starting, time = 5\<rparr>]"
  "sortChanges (calculateChanges roundingHeap 0 8 [2, 3, 1] None)
     = [\<lparr>sigPtr = 1, changeType = starting, time = 0\<rparr>,
        \<lparr>sigPtr = 2, changeType = starting, time = 5\<rparr>,
        \<lparr>sigPtr = 3, changeType = starting, time = 5\<rparr>,
        \<lparr>sigPtr = 1, changeType = ending, time = 5\<rparr>]"
  by (simp_all add: sortChanges_def roundingHeap_def mkSignal_def)

text \<open>
  C6: the result of \<open>getMinAtFreqIndex\<close> is invariant under any permutation of events
  sharing a timestamp. The code, whose accumulator is a \<open>double\<close>, does not have this
  property. Over the window \<open>[0, 8]\<close> the starting events of frames 2 and 3 and the ending
  event of frame 1 share the timestamp 5. With the ending event first the accumulator goes
  \<open>10^16, 0, 1, 2\<close> and the function returns 2; with the ending event last it goes
  \<open>10^16, 10^16, 10^16, 0\<close>, since \<open>10^16 + 1\<close> rounds to \<open>10^16\<close>, and the function
  returns 0. The two event lists are sorted by time and hold the same events: they differ
  only in the order within the tie. A sort that keeps the order of ties produces them from
  the collections \<open>[1, 2, 3]\<close> and \<open>[2, 3, 1]\<close>; \<open>std::sort\<close> may produce either from
  either.
\<close>

theorem tie_order_changes_rounded_minimum:
  "getMinAtFreqIndex_double roundingHeap 0 8 [1, 2, 3] 0 None = Some 2
   \<and> getMinAtFreqIndex_double roundingHeap 0 8 [2, 3, 1] 0 None = Some 0
   \<and> sorted (map time (sortChanges (calculateChanges roundingHeap 0 8 [1, 2, 3] None)))
   \<and> sorted (map time (sortChanges (calculateChanges roundingHeap 0 8 [2, 3, 1] None)))
   \<and> mset (sortChanges (calculateChanges roundingHeap 0 8 [1, 2, 3] None))
       = mset (sortChanges (calculateChanges roundingHeap 0 8 [2, 3, 1] None))"
proof -
  have a: "getMinAtFreqIndex_double roundingHeap 0 8 [1, 2, 3] 0 None = Some 2"
    unfolding getMinAtFreqIndex_double_def rounding_changes
    by (simp add: sweepMinAt_double_def applyChangeAt_double_def sigAt_def
        roundingHeap_def mkSignal_def roundDouble_values)
  have b: "getMinAtFreqIndex_double roundingHeap 0 8 [2, 3, 1] 0 None = Some 0"
    unfolding getMinAtFreqIndex_double_def rounding_changes
    by (simp add: sweepMinAt_double_def applyChangeAt_double_def sigAt_def
        roundingHeap_def mkSignal_def roundDouble_values)
  have c: "sorted (map time (sortChanges (calculateChanges roundingHeap 0 8 [1, 2, 3] None)))"
          "sorted (map time (sortChanges (calculateChanges roundingHeap 0 8 [2, 3, 1] None)))"
    unfolding rounding_changes by simp_all
  have d: "mset (sortChanges (calculateChanges roundingHeap 0 8 [1, 2, 3] None))
       = mset (sortChanges (calculateChanges roundingHeap 0 8 [2, 3, 1] None))"
    unfolding rounding_changes by (simp add: add_mset_commute)
  show ?thesis using a b c d by blast
qed

text \<open>With exact sums both orders give 2 on the same data.\<close>

lemma exact_minimum_on_rounding_example:
  "getMinAtFreqIndex roundingHeap 0 8 [1, 2, 3] 0 None = Some 2"
  "getMinAtFreqIndex roundingHeap 0 8 [2, 3, 1] 0 None = Some 2"
  unfolding getMinAtFreqIndex_def rounding_changes
  by (simp_all add: sweepMinAt_def applyChangeAt_def sigAt_def roundingHeap_def mkSignal_def)

subsection \<open>The maximum interference\<close>

lemma maxInterferenceLoop_signals:
  "maxInterferenceLoop h start endT refId spec frames st
     = interferenceLoop start endT spec
         (map (\<lambda>f. signal (h f)) (filter (\<lambda>f. treeId (h f) \<noteq> refId) frames)) st"
proof (induction frames arbitrary: st)
  case Nil
  then show ?case by simp
next
  case (Cons f frames)
  show ?case
    by (simp add: Cons.IH Let_def cong: Option.bind_cong)
qed

lemma interferenceAt_signals:
  "interferenceAt h refId frames t b
     = powerSum (map (\<lambda>f. signal (h f)) (filter (\<lambda>f. treeId (h f) \<noteq> refId) frames)) t b"
  by (induction frames)
     (simp_all add: interferenceAt_def powerSum_def powerAt_def activeAt_def activeSignal_def)

lemma wellFormed_nonneg:
  "wellFormed spec s \<Longrightarrow> b < length spec \<Longrightarrow> 0 \<le> samples s ! b"
  by (simp add: wellFormed_def list_all_length)

lemma wellFormed_outside:
  "wellFormed spec s \<Longrightarrow> b < length spec \<Longrightarrow> b < dataStart s \<or> dataEnd s \<le> b
     \<Longrightarrow> samples s ! b = 0"
  by (auto simp: wellFormed_def list_all_iff)

lemma sum_filter_mono:
  fixes g :: "'a \<Rightarrow> real"
  assumes "\<forall>x \<in> set xs. 0 \<le> g x" and "\<forall>x \<in> set xs. P x \<longrightarrow> Q x"
  shows "sum_list (map g (filter P xs)) \<le> sum_list (map g (filter Q xs))"
  using assms by (induction xs) (auto simp: add_increasing)

lemma sum_filter_nonneg:
  fixes g :: "'a \<Rightarrow> real"
  assumes "\<forall>x \<in> set xs. 0 \<le> g x"
  shows "0 \<le> sum_list (map g (filter P xs))"
  using assms by (induction xs) auto

lemma sum_mset_eq:
  fixes g :: "'a \<Rightarrow> real"
  assumes "mset xs = mset ys"
  shows "sum_list (map g xs) = sum_list (map g ys)"
proof -
  have "mset (map g xs) = mset (map g ys)"
    using assms by (metis mset_map)
  then show ?thesis by (metis sum_mset_sum_list)
qed

lemma sum_filter_split:
  fixes g :: "'a \<Rightarrow> real"
  shows "sum_list (map g xs)
           = sum_list (map g (filter P xs)) + sum_list (map g (filter (\<lambda>x. \<not> P x) xs))"
  by (induction xs) auto

lemma combine_samples:
  assumes "spectrum s = spectrum acc" and "length (samples s) = length (samples acc)"
  shows "\<exists>acc'. combine f acc s = Some acc' \<and> spectrum acc' = spectrum acc
           \<and> length (samples acc') = length (samples acc)
           \<and> (\<forall>b < length (samples acc). samples acc' ! b = f (samples acc ! b) (samples s ! b))"
  using assms by (simp add: combine_def)

lemma removeEnded_sorted:
  assumes "sorted (map receptionEnd q)"
    and "\<exists>x \<in> set q. t < receptionEnd x"
    and "\<forall>x \<in> set q. spectrum x = spectrum cur \<and> length (samples x) = length (samples cur)"
  shows "\<exists>cur'. removeEnded cur q t = Some (cur', filter (\<lambda>x. t < receptionEnd x) q)
           \<and> spectrum cur' = spectrum cur
           \<and> length (samples cur') = length (samples cur)
           \<and> (\<forall>b < length (samples cur). samples cur' ! b = samples cur ! b
                 - sum_list (map (\<lambda>x. samples x ! b) (filter (\<lambda>x. receptionEnd x \<le> t) q)))"
  using assms
proof (induction q arbitrary: cur)
  case Nil
  then show ?case by simp
next
  case (Cons x q)
  show ?case
  proof (cases "receptionEnd x \<le> t")
    case True
    from Cons.prems(3) have "spectrum x = spectrum cur" "length (samples x) = length (samples cur)"
      by simp_all
    from combine_samples [OF this, of "(-)"] obtain cur1 where
      c1: "minus_assign cur x = Some cur1" "spectrum cur1 = spectrum cur"
          "length (samples cur1) = length (samples cur)"
          "\<forall>b < length (samples cur). samples cur1 ! b = samples cur ! b - samples x ! b"
      unfolding minus_assign_def by blast
    have "sorted (map receptionEnd q)" using Cons.prems(1) by simp
    moreover have "\<exists>y \<in> set q. t < receptionEnd y" using Cons.prems(2) True by auto
    moreover have "\<forall>y \<in> set q. spectrum y = spectrum cur1
                      \<and> length (samples y) = length (samples cur1)"
      using Cons.prems(3) c1 by simp
    ultimately obtain cur' where
      c': "removeEnded cur1 q t = Some (cur', filter (\<lambda>x. t < receptionEnd x) q)"
          "spectrum cur' = spectrum cur1" "length (samples cur') = length (samples cur1)"
          "\<forall>b < length (samples cur1). samples cur' ! b = samples cur1 ! b
                 - sum_list (map (\<lambda>x. samples x ! b) (filter (\<lambda>x. receptionEnd x \<le> t) q))"
      using Cons.IH [of cur1] by blast
    show ?thesis
      using True c1 c' by simp
  next
    case False
    then have "\<forall>y \<in> set q. t < receptionEnd y"
      using Cons.prems(1) by auto
    then have "filter (\<lambda>x. t < receptionEnd x) q = q" "filter (\<lambda>x. receptionEnd x \<le> t) q = []"
      by (auto simp: filter_id_conv filter_empty_conv)
    then show ?thesis using False by simp
  qed
qed

lemma updateMaximum_samples:
  assumes "length (samples c) = length (samples m)"
    and "\<forall>i \<in> set is. i < length (samples m)"
  shows "\<exists>m'. updateMaximum m c is = Some m'
           \<and> length (samples m') = length (samples m)
           \<and> (\<forall>b < length (samples m). samples m' ! b
                 = (if b \<in> set is then max (samples c ! b) (samples m ! b) else samples m ! b))"
  using assms
proof (induction "is" arbitrary: m)
  case Nil
  then show ?case by simp
next
  case (Cons i "is")
  let ?m1 = "set_at m i (max (samples c ! i) (samples m ! i))"
  have l1: "length (samples ?m1) = length (samples m)"
    by (simp add: set_at_def)
  have "length (samples c) = length (samples ?m1)" "\<forall>j \<in> set is. j < length (samples ?m1)"
    using Cons.prems l1 by simp_all
  from Cons.IH [OF this] obtain m' where
    m': "updateMaximum ?m1 c is = Some m'" "length (samples m') = length (samples ?m1)"
        "\<forall>b < length (samples ?m1). samples m' ! b
                 = (if b \<in> set is then max (samples c ! b) (samples ?m1 ! b) else samples ?m1 ! b)"
    by blast
  have i: "i < length (samples m)" "i < length (samples c)"
    using Cons.prems by simp_all
  have step: "updateMaximum m c (i # is) = Some m'"
    using i m'(1) by (simp add: sigAt_def)
  have vals: "\<forall>b < length (samples m). samples m' ! b
                 = (if b \<in> set (i # is) then max (samples c ! b) (samples m ! b) else samples m ! b)"
  proof (intro allI impI)
    fix b assume b: "b < length (samples m)"
    have m1b: "samples ?m1 ! b = (if b = i then max (samples c ! i) (samples m ! i) else samples m ! b)"
      using b by (simp add: set_at_def nth_list_update)
    show "samples m' ! b
            = (if b \<in> set (i # is) then max (samples c ! b) (samples m ! b) else samples m ! b)"
      using m'(3) [rule_format, of b] b l1 m1b by auto
  qed
  show ?case using step m'(2) l1 vals by simp
qed

lemma powerSum_append:
  "powerSum (xs @ ys) t b = powerSum xs t b + powerSum ys t b"
  by (simp add: powerSum_def)

lemma powerSum_single:
  "powerSum [s] t b = (if activeSignal s t then samples s ! b else 0)"
  by (simp add: powerSum_def)

lemma window_lower: "t \<in> window start endT \<Longrightarrow> start \<le> t"
  by (simp add: window_def split: if_splits)

lemma window_max: "now < endT \<Longrightarrow> max start now \<in> window start endT"
  by (simp add: window_def)

lemma window_start: "start \<in> window start endT"
  by (simp add: window_def)

lemma loopInv_step:
  assumes inv: "loopInv start endT spec seen st"
    and wf: "wellFormed spec s"
    and ord: "currentTime st \<le> receptionStart s"
    and before: "receptionStart s < endT"
    and after: "start < receptionEnd s"
  shows "\<exists>cur endings' cur' maxI.
           removeEnded (currentInterference st)
             (insort_key receptionEnd s (signalEndings st)) (receptionStart s)
               = Some (cur, endings')
           \<and> plus_assign cur s = Some cur'
           \<and> updateMaximum (maxInterference st) cur' [dataStart s ..< dataEnd s] = Some maxI
           \<and> loopInv start endT spec (seen @ [s])
               \<lparr>maxInterference = maxI, currentInterference = cur',
                signalEndings = endings', currentTime = receptionStart s\<rparr>"
proof -
  let ?told = "currentTime st" and ?tnew = "receptionStart s"
  let ?Q = "signalEndings st" and ?C = "currentInterference st" and ?M = "maxInterference st"
  let ?E = "insort_key receptionEnd s ?Q"
  let ?n = "length spec"
  let ?Pold = "\<lambda>x. ?told < receptionEnd x" and ?Pnew = "\<lambda>x. ?tnew < receptionEnd x"
  let ?g = "\<lambda>b x. samples x ! b"
  have inv0: "\<forall>x \<in> set seen. wellFormed spec x \<and> receptionStart x \<le> ?told
                \<and> receptionStart x < endT \<and> start < receptionEnd x"
    and inv1: "sorted (map receptionEnd ?Q)"
    and inv2: "mset ?Q = mset (filter ?Pold seen)"
    and invC: "spectrum ?C = spec" "length (samples ?C) = ?n"
    and invM: "length (samples ?M) = ?n"
    and invB: "\<forall>b < ?n. samples ?C ! b = sum_list (map (?g b) (filter ?Pold seen))
            \<and> samples ?C ! b \<le> samples ?M ! b
            \<and> 0 \<le> samples ?M ! b
            \<and> (\<forall>t \<in> window start endT. powerSum seen t b \<le> samples ?M ! b)
            \<and> (\<exists>t \<in> window start endT. samples ?M ! b \<le> powerSum seen t b)"
    using inv unfolding loopInv_def by blast+
  have wfs: "spectrum s = spec" "length (samples s) = ?n" "?tnew < receptionEnd s"
            "dataEnd s \<le> ?n"
    using wf by (simp_all add: wellFormed_def)
  have setQ: "set ?Q \<subseteq> set seen"
    using inv2 by (metis filter_is_subset mset_eq_setD)
  have wfQ: "\<forall>x \<in> set ?Q. wellFormed spec x"
    using setQ inv0 by blast
  have setE: "set ?E = insert s (set ?Q)"
    by (simp add: set_insort_key)
  have wfE: "\<forall>x \<in> set ?E. wellFormed spec x"
    using wfQ wf setE by simp
  have sortedE: "sorted (map receptionEnd ?E)"
    using inv1 by (simp add: sorted_insort_key)
  have msetE: "mset ?E = add_mset s (mset ?Q)"
    by simp
  have "\<exists>x \<in> set ?E. ?tnew < receptionEnd x"
    using setE wfs(3) by blast
  moreover have "\<forall>x \<in> set ?E. spectrum x = spectrum ?C \<and> length (samples x) = length (samples ?C)"
    using wfE invC by (simp add: wellFormed_def)
  ultimately obtain cur where
    cur: "removeEnded ?C ?E ?tnew = Some (cur, filter ?Pnew ?E)"
         "spectrum cur = spectrum ?C" "length (samples cur) = length (samples ?C)"
         "\<forall>b < length (samples ?C). samples cur ! b = samples ?C ! b
                 - sum_list (map (?g b) (filter (\<lambda>x. receptionEnd x \<le> ?tnew) ?E))"
    using removeEnded_sorted [OF sortedE, of ?tnew ?C] by blast
  have "spectrum s = spectrum cur" "length (samples s) = length (samples cur)"
    using cur(2,3) invC wfs by simp_all
  from combine_samples [OF this, of "(+)"] obtain cur' where
    cur': "plus_assign cur s = Some cur'" "spectrum cur' = spectrum cur"
          "length (samples cur') = length (samples cur)"
          "\<forall>b < length (samples cur). samples cur' ! b = samples cur ! b + samples s ! b"
    unfolding plus_assign_def by blast
  have "length (samples cur') = length (samples ?M)"
    using cur'(3) cur(3) invC invM by simp
  moreover have "\<forall>i \<in> set [dataStart s ..< dataEnd s]. i < length (samples ?M)"
    using wfs(4) invM by simp
  ultimately obtain maxI where
    maxI: "updateMaximum ?M cur' [dataStart s ..< dataEnd s] = Some maxI"
          "length (samples maxI) = length (samples ?M)"
          "\<forall>b < length (samples ?M). samples maxI ! b
                 = (if b \<in> set [dataStart s ..< dataEnd s]
                    then max (samples cur' ! b) (samples ?M ! b) else samples ?M ! b)"
    using updateMaximum_samples [of cur' ?M "[dataStart s ..< dataEnd s]"] by blast
  let ?stN = "\<lparr>maxInterference = maxI, currentInterference = cur',
                signalEndings = filter ?Pnew ?E, currentTime = ?tnew\<rparr>"
  let ?seenN = "seen @ [s]"
  \<comment> \<open>the queue\<close>
  have impl: "\<forall>x. ?Pnew x \<longrightarrow> ?Pold x"
    using ord by auto
  have fP: "filter ?Pnew (filter ?Pold seen) = filter ?Pnew seen"
    using impl by (auto intro: filter_cong)
  have q1: "sorted (map receptionEnd (filter ?Pnew ?E))"
    using sortedE by (rule sorted_filter)
  have msetPQ: "mset (filter ?Pnew ?Q) = mset (filter ?Pnew seen)"
  proof -
    have "mset (filter ?Pnew ?Q) = filter_mset ?Pnew (mset (filter ?Pold seen))"
      using inv2 by (metis mset_filter)
    also have "\<dots> = mset (filter ?Pnew (filter ?Pold seen))"
      by (simp only: mset_filter)
    finally show ?thesis by (simp only: fP)
  qed
  have q2: "mset (filter ?Pnew ?E) = mset (filter ?Pnew ?seenN)"
  proof -
    have "mset (filter ?Pnew ?E) = filter_mset ?Pnew (add_mset s (mset ?Q))"
      by (simp only: mset_filter msetE)
    also have "\<dots> = add_mset s (mset (filter ?Pnew ?Q))"
      using wfs(3) by simp
    finally show ?thesis using msetPQ wfs(3) by simp
  qed
  have seen0: "\<forall>x \<in> set ?seenN. wellFormed spec x \<and> receptionStart x \<le> ?tnew
                \<and> receptionStart x < endT \<and> start < receptionEnd x"
    using inv0 wf ord before after by auto
  \<comment> \<open>the running total\<close>
  have total: "samples cur' ! b = sum_list (map (?g b) (filter ?Pnew ?seenN))"
    and drop: "samples cur ! b \<le> samples ?C ! b"
    and plus: "samples cur' ! b = samples cur ! b + samples s ! b"
    if b: "b < ?n" for b
  proof -
    have removed: "sum_list (map (?g b) (filter (\<lambda>x. receptionEnd x \<le> ?tnew) ?E))
                     = sum_list (map (?g b) (filter (\<lambda>x. \<not> ?Pnew x) ?Q))"
    proof (rule sum_mset_eq)
      have "mset (filter (\<lambda>x. receptionEnd x \<le> ?tnew) ?E)
              = filter_mset (\<lambda>x. receptionEnd x \<le> ?tnew) (add_mset s (mset ?Q))"
        by (simp only: mset_filter msetE)
      also have "\<dots> = mset (filter (\<lambda>x. receptionEnd x \<le> ?tnew) ?Q)"
        using wfs(3) by simp
      also have "\<dots> = mset (filter (\<lambda>x. \<not> ?Pnew x) ?Q)"
        by (simp add: not_less)
      finally show "mset (filter (\<lambda>x. receptionEnd x \<le> ?tnew) ?E)
                      = mset (filter (\<lambda>x. \<not> ?Pnew x) ?Q)" .
    qed
    have cq: "samples ?C ! b = sum_list (map (?g b) ?Q)"
      using invB b sum_mset_eq [OF inv2, of "?g b"] by simp
    have split: "sum_list (map (?g b) ?Q)
                   = sum_list (map (?g b) (filter ?Pnew ?Q))
                     + sum_list (map (?g b) (filter (\<lambda>x. \<not> ?Pnew x) ?Q))"
      by (rule sum_filter_split)
    have kept: "sum_list (map (?g b) (filter ?Pnew ?Q)) = sum_list (map (?g b) (filter ?Pnew seen))"
      by (rule sum_mset_eq [OF msetPQ])
    have curb: "samples cur ! b = sum_list (map (?g b) (filter ?Pnew seen))"
      using cur(4) [rule_format, of b] b invC removed cq split kept by simp
    show plus: "samples cur' ! b = samples cur ! b + samples s ! b"
      using cur'(4) [rule_format, of b] b cur(3) invC by simp
    show "samples cur' ! b = sum_list (map (?g b) (filter ?Pnew ?seenN))"
      using plus curb wfs(3) by simp
    have "0 \<le> sum_list (map (?g b) (filter (\<lambda>x. \<not> ?Pnew x) ?Q))"
      using wfQ b by (intro sum_filter_nonneg) (auto intro: wellFormed_nonneg)
    then show "samples cur ! b \<le> samples ?C ! b"
      using cur(4) [rule_format, of b] b invC removed by simp
  qed
  \<comment> \<open>the tracker\<close>
  have tracker: "samples maxI ! b
                 = (if dataStart s \<le> b \<and> b < dataEnd s
                    then max (samples cur' ! b) (samples ?M ! b) else samples ?M ! b)"
    if b: "b < ?n" for b
    using maxI(3) [rule_format, of b] b invM by simp
  have nonnegSeen: "\<forall>x \<in> set ?seenN. 0 \<le> ?g b x" if b: "b < ?n" for b
    using seen0 b by (auto intro: wellFormed_nonneg)
  have bins: "samples cur' ! b = sum_list (map (?g b) (filter ?Pnew ?seenN))
            \<and> samples cur' ! b \<le> samples maxI ! b
            \<and> 0 \<le> samples maxI ! b
            \<and> (\<forall>t \<in> window start endT. powerSum ?seenN t b \<le> samples maxI ! b)
            \<and> (\<exists>t \<in> window start endT. samples maxI ! b \<le> powerSum ?seenN t b)"
    if b: "b < ?n" for b
  proof (intro conjI)
    note ib = invB [rule_format, OF b]
    have Mle: "samples ?M ! b \<le> samples maxI ! b"
      using tracker [OF b] by simp
    show "samples cur' ! b = sum_list (map (?g b) (filter ?Pnew ?seenN))"
      by (rule total [OF b])
    show le: "samples cur' ! b \<le> samples maxI ! b"
    proof (cases "dataStart s \<le> b \<and> b < dataEnd s")
      case True
      then show ?thesis using tracker [OF b] by simp
    next
      case False
      then have "samples s ! b = 0"
        using wellFormed_outside [OF wf b] by auto
      then have "samples cur' ! b \<le> samples ?C ! b"
        using plus [OF b] drop [OF b] by simp
      then show ?thesis using ib Mle by simp
    qed
    show "0 \<le> samples maxI ! b"
      using ib Mle by simp
    show "\<forall>t \<in> window start endT. powerSum ?seenN t b \<le> samples maxI ! b"
    proof
      fix t assume t: "t \<in> window start endT"
      show "powerSum ?seenN t b \<le> samples maxI ! b"
      proof (cases "t < ?tnew")
        case True
        then have "powerSum ?seenN t b = powerSum seen t b"
          by (simp add: powerSum_append powerSum_single activeSignal_def)
        then show ?thesis using ib t Mle by force
      next
        case False
        have "powerSum ?seenN t b \<le> sum_list (map (?g b) (filter ?Pnew ?seenN))"
          unfolding powerSum_def
          using False by (intro sum_filter_mono nonnegSeen [OF b]) (auto simp: activeSignal_def)
        then show ?thesis using total [OF b] le by simp
      qed
    qed
    show "\<exists>t \<in> window start endT. samples maxI ! b \<le> powerSum ?seenN t b"
    proof (cases "samples maxI ! b = samples ?M ! b")
      case True
      from ib obtain t where t: "t \<in> window start endT" "samples ?M ! b \<le> powerSum seen t b"
        by blast
      have "0 \<le> powerSum [s] t b"
        using wellFormed_nonneg [OF wf b] by (simp add: powerSum_single)
      then have "samples maxI ! b \<le> powerSum ?seenN t b"
        using True t(2) by (simp add: powerSum_append)
      with t(1) show ?thesis by blast
    next
      case False
      then have eq: "samples maxI ! b = samples cur' ! b"
        using tracker [OF b] by (auto simp: max_def split: if_splits)
      let ?t = "max start ?tnew"
      have tin: "?t \<in> window start endT"
        using before by (rule window_max)
      have "sum_list (map (?g b) (filter ?Pnew ?seenN))
              \<le> sum_list (map (?g b) (filter (\<lambda>x. activeSignal x ?t) ?seenN))"
        using seen0 by (intro sum_filter_mono nonnegSeen [OF b]) (auto simp: activeSignal_def)
      then have "samples maxI ! b \<le> powerSum ?seenN ?t b"
        using eq total [OF b] by (simp add: powerSum_def)
      with tin show ?thesis by blast
    qed
  qed
  have specN: "spectrum cur' = spec" and lenN: "length (samples cur') = length spec"
    and lenM: "length (samples maxI) = length spec"
    using cur'(2,3) cur(2,3) invC maxI(2) invM by simp_all
  have binsN: "\<forall>b < ?n. samples cur' ! b = sum_list (map (?g b) (filter ?Pnew ?seenN))
            \<and> samples cur' ! b \<le> samples maxI ! b
            \<and> 0 \<le> samples maxI ! b
            \<and> (\<forall>t \<in> window start endT. powerSum ?seenN t b \<le> samples maxI ! b)
            \<and> (\<exists>t \<in> window start endT. samples maxI ! b \<le> powerSum ?seenN t b)"
    using bins by blast
  have "loopInv start endT spec ?seenN ?stN"
    unfolding loopInv_def MaxInterferenceState.select_convs
    by (intro conjI seen0 q1 q2 specN lenN lenM binsN)
  then show ?thesis
    using cur(1) cur'(1) maxI(1) by blast
qed

lemma powerSum_inactive:
  "\<not> activeSignal s t \<Longrightarrow> powerSum (xs @ s # ys) t b = powerSum (xs @ ys) t b"
  by (simp add: powerSum_def)

lemma powerSum_started_before:
  "t < endT \<Longrightarrow> powerSum (filter (\<lambda>s. receptionStart s < endT) ss) t b = powerSum ss t b"
  unfolding powerSum_def
  by (induction ss) (auto simp: activeSignal_def)

lemma interferenceLoop_correct:
  "\<lbrakk>\<forall>s \<in> set todo. wellFormed spec s; sorted (map receptionStart todo);
    \<forall>s \<in> set todo. currentTime st \<le> receptionStart s;
    loopInv start endT spec seen st\<rbrakk>
     \<Longrightarrow> \<exists>st'. interferenceLoop start endT spec todo st = Some st'
           \<and> length (samples (maxInterference st')) = length spec
           \<and> (\<forall>b < length spec.
                 (\<forall>t \<in> window start endT.
                    powerSum (seen @ filter (\<lambda>s. receptionStart s < endT) todo) t b
                      \<le> samples (maxInterference st') ! b)
                 \<and> (\<exists>t \<in> window start endT.
                    samples (maxInterference st') ! b
                      \<le> powerSum (seen @ filter (\<lambda>s. receptionStart s < endT) todo) t b))"
proof (induction todo arbitrary: seen st)
  case Nil
  then show ?case
    unfolding loopInv_def by simp
next
  case (Cons s todo)
  let ?early = "\<lambda>s. receptionStart s < endT"
  have wf: "wellFormed spec s" and wfr: "\<forall>x \<in> set todo. wellFormed spec x"
    using Cons.prems(1) by simp_all
  have srt: "sorted (map receptionStart todo)"
    and later: "\<forall>x \<in> set todo. receptionStart s \<le> receptionStart x"
    using Cons.prems(2) by simp_all
  have ord: "currentTime st \<le> receptionStart s"
    and ordr: "\<forall>x \<in> set todo. currentTime st \<le> receptionStart x"
    using Cons.prems(3) by simp_all
  note inv = Cons.prems(4)
  have spec_s: "spectrum s = spec"
    using wf by (simp add: wellFormed_def)
  show ?case
  proof (cases "receptionEnd s \<le> start \<or> receptionStart s > endT")
    case True
    have step: "interferenceLoop start endT spec (s # todo) st
                  = interferenceLoop start endT spec todo st"
      using True by simp
    have same: "powerSum (seen @ filter ?early (s # todo)) t b
                  = powerSum (seen @ filter ?early todo) t b"
      if t: "t \<in> window start endT" for t b
    proof (cases "receptionStart s < endT")
      case early: True
      then have "receptionEnd s \<le> t"
        using True window_lower [OF t] by simp
      then have "\<not> activeSignal s t"
        by (simp add: activeSignal_def)
      then show ?thesis
        using early by (simp add: powerSum_inactive)
    next
      case False
      then show ?thesis by simp
    qed
    from Cons.IH [OF wfr srt ordr inv] obtain st' where
      run: "interferenceLoop start endT spec todo st = Some st'"
      and len: "length (samples (maxInterference st')) = length spec"
      and bnd: "\<forall>b < length spec.
                 (\<forall>t \<in> window start endT.
                    powerSum (seen @ filter ?early todo) t b \<le> samples (maxInterference st') ! b)
                 \<and> (\<exists>t \<in> window start endT.
                    samples (maxInterference st') ! b \<le> powerSum (seen @ filter ?early todo) t b)"
      by blast
    have "(\<forall>t \<in> window start endT.
              powerSum (seen @ filter ?early (s # todo)) t b \<le> samples (maxInterference st') ! b)
          \<and> (\<exists>t \<in> window start endT.
              samples (maxInterference st') ! b \<le> powerSum (seen @ filter ?early (s # todo)) t b)"
      if b: "b < length spec" for b
    proof (intro conjI ballI)
      fix t assume t: "t \<in> window start endT"
      show "powerSum (seen @ filter ?early (s # todo)) t b \<le> samples (maxInterference st') ! b"
        unfolding same [OF t] using bnd b t by blast
    next
      from bnd b obtain t where t: "t \<in> window start endT"
        and le: "samples (maxInterference st') ! b \<le> powerSum (seen @ filter ?early todo) t b"
        by blast
      have "samples (maxInterference st') ! b \<le> powerSum (seen @ filter ?early (s # todo)) t b"
        unfolding same [OF t] by (rule le)
      with t show "\<exists>t \<in> window start endT.
              samples (maxInterference st') ! b \<le> powerSum (seen @ filter ?early (s # todo)) t b"
        by blast
    qed
    then show ?thesis
      unfolding step using run len by blast
  next
    case False
    then have after: "start < receptionEnd s" and upto: "receptionStart s \<le> endT"
      by simp_all
    show ?thesis
    proof (cases "receptionStart s \<ge> endT")
      case True
      have step: "interferenceLoop start endT spec (s # todo) st
                    = Some (st\<lparr>signalEndings := insort_key receptionEnd s (signalEndings st),
                               currentTime := receptionStart s\<rparr>)"
        using False True ord spec_s by (simp add: Let_def)
      have "\<forall>x \<in> set (s # todo). \<not> ?early x"
        using True later by auto
      then have none: "filter ?early (s # todo) = []"
        by (simp only: filter_empty_conv)
      show ?thesis
        unfolding step none using inv
        unfolding loopInv_def by simp
    next
      case False
      then have before: "receptionStart s < endT" by simp
      from loopInv_step [OF inv wf ord before after] obtain cur endings' cur' maxI where
        r: "removeEnded (currentInterference st)
              (insort_key receptionEnd s (signalEndings st)) (receptionStart s)
                = Some (cur, endings')"
        and p: "plus_assign cur s = Some cur'"
        and u: "updateMaximum (maxInterference st) cur' [dataStart s ..< dataEnd s] = Some maxI"
        and inv': "loopInv start endT spec (seen @ [s])
               \<lparr>maxInterference = maxI, currentInterference = cur',
                signalEndings = endings', currentTime = receptionStart s\<rparr>"
        by blast
      let ?stN = "\<lparr>maxInterference = maxI, currentInterference = cur',
                signalEndings = endings', currentTime = receptionStart s\<rparr>"
      have step: "interferenceLoop start endT spec (s # todo) st
                    = interferenceLoop start endT spec todo ?stN"
        using after upto before ord spec_s r p u by (simp add: Let_def)
      have ordN: "\<forall>x \<in> set todo. currentTime ?stN \<le> receptionStart x"
        using later by simp
      have app: "seen @ filter ?early (s # todo) = (seen @ [s]) @ filter ?early todo"
        using before by simp
      from Cons.IH [OF wfr srt ordN inv'] show ?thesis
        unfolding step app .
    qed
  qed
qed

lemma loopInv_initial:
  "loopInv start endT spec []
     \<lparr>maxInterference = Signal_new spec, currentInterference = Signal_new spec,
      signalEndings = [], currentTime = 0\<rparr>"
  unfolding loopInv_def
  by (auto simp: Signal_new_def powerSum_def intro: window_start)

lemma interferenceOfEarlier_signals:
  "interferenceOfEarlier h refId frames t b
     = powerSum (filter (\<lambda>s. receptionStart s < t)
         (map (\<lambda>f. signal (h f)) (filter (\<lambda>f. treeId (h f) \<noteq> refId) frames))) t b"
  by (induction frames)
     (auto simp: interferenceOfEarlier_def powerSum_def powerAt_def activeSignal_def)

text \<open>
  C1, as the code has it. Let the window be \<open>start \<le> end\<close>, the collection sorted
  ascending by reception start, and every interferer (a frame whose transport identity is
  not the reference frame's) carry a well-formed signal of the reference frame's spectrum
  that does not start before time 0. Then \<open>getMaxInterference\<close> returns a signal whose
  value at each bin is, for \<open>start < end\<close>, the maximum over the instants \<open>t\<close> with
  \<open>start \<le> t < end\<close> of the sum of the power at that bin of the interferers whose
  reception interval contains \<open>t\<close>, and for the point window \<open>start = end\<close> the sum of
  the power of the interferers that started before that instant and are still active at it.
\<close>

theorem getMaxInterference_is_maximum:
  assumes win: "start \<le> endT"
    and srt: "sorted (map (\<lambda>f. receptionStart (signal (h f))) interfererFrames)"
    and wf: "\<forall>f \<in> set interfererFrames. treeId (h f) \<noteq> treeId (h referenceFrame) \<longrightarrow>
               wellFormed (spectrum (signal (h referenceFrame))) (signal (h f))
               \<and> 0 \<le> receptionStart (signal (h f))"
  shows "\<exists>m. getMaxInterference h start endT referenceFrame interfererFrames = Some m
           \<and> (\<forall>b < length (spectrum (signal (h referenceFrame))).
                 sigAt m b = Some
                   (if start < endT
                    then Max ((\<lambda>t. interferenceAt h (treeId (h referenceFrame))
                                      interfererFrames t b) ` {start ..< endT})
                    else interferenceOfEarlier h (treeId (h referenceFrame))
                           interfererFrames start b))"
proof -
  let ?spec = "spectrum (signal (h referenceFrame))"
  let ?refId = "treeId (h referenceFrame)"
  let ?ss = "map (\<lambda>f. signal (h f)) (filter (\<lambda>f. treeId (h f) \<noteq> ?refId) interfererFrames)"
  let ?early = "filter (\<lambda>s. receptionStart s < endT) ?ss"
  let ?st0 = "\<lparr>maxInterference = Signal_new ?spec, currentInterference = Signal_new ?spec,
            signalEndings = [], currentTime = 0\<rparr>"
  have wfs: "\<forall>s \<in> set ?ss. wellFormed ?spec s"
    using wf by auto
  have "sorted (map (\<lambda>f. receptionStart (signal (h f)))
           (filter (\<lambda>f. treeId (h f) \<noteq> ?refId) interfererFrames))"
    using srt by (rule sorted_filter)
  then have srts: "sorted (map receptionStart ?ss)"
    by (simp add: comp_def)
  have pos: "\<forall>s \<in> set ?ss. currentTime ?st0 \<le> receptionStart s"
    using wf by auto
  from interferenceLoop_correct [OF wfs srts pos loopInv_initial, of start endT]
  obtain st' where
    run: "interferenceLoop start endT ?spec ?ss ?st0 = Some st'"
    and len: "length (samples (maxInterference st')) = length ?spec"
    and bnd: "\<forall>b < length ?spec.
                 (\<forall>t \<in> window start endT. powerSum ?early t b \<le> samples (maxInterference st') ! b)
                 \<and> (\<exists>t \<in> window start endT. samples (maxInterference st') ! b \<le> powerSum ?early t b)"
    by auto
  have res: "getMaxInterference h start endT referenceFrame interfererFrames
               = Some (maxInterference st')"
    unfolding getMaxInterference_def maxInterferenceLoop_signals
    using run by (simp add: Let_def)
  have "sigAt (maxInterference st') b
          = Some (if start < endT
                  then Max ((\<lambda>t. interferenceAt h ?refId interfererFrames t b) ` {start ..< endT})
                  else interferenceOfEarlier h ?refId interfererFrames start b)"
    if b: "b < length ?spec" for b
  proof (cases "start < endT")
    case True
    let ?I = "\<lambda>t. interferenceAt h ?refId interfererFrames t b"
    let ?x = "samples (maxInterference st') ! b"
    have w: "window start endT = {start ..< endT}"
      using True by (simp add: window_def)
    have I: "?I t = powerSum ?early t b" if "t \<in> {start ..< endT}" for t
      using that by (simp add: interferenceAt_signals powerSum_started_before)
    from bnd b have up: "\<forall>t \<in> {start ..< endT}. ?I t \<le> ?x"
      and "\<exists>t \<in> {start ..< endT}. ?x \<le> ?I t"
      unfolding w by (simp_all add: I)
    then obtain t where t: "t \<in> {start ..< endT}" "?x \<le> ?I t"
      by blast
    then have "?I t = ?x" using up by force
    then have mem: "?x \<in> ?I ` {start ..< endT}"
      using t(1) by (metis imageI)
    have "Max (?I ` {start ..< endT}) = ?x"
      using up mem by (intro Max_eqI) auto
    then show ?thesis
      using b len True by (simp add: sigAt_def)
  next
    case False
    then have eq: "endT = start" using win by simp
    let ?x = "samples (maxInterference st') ! b"
    have w: "window start endT = {start}"
      using False by (simp add: window_def)
    from bnd b have "powerSum ?early start b \<le> ?x" "?x \<le> powerSum ?early start b"
      unfolding w by simp_all
    then have "?x = powerSum ?early start b" by simp
    then have "?x = interferenceOfEarlier h ?refId interfererFrames start b"
      by (simp add: interferenceOfEarlier_signals eq)
    then show ?thesis
      using b len False by (simp add: sigAt_def)
  qed
  with res show ?thesis by blast
qed

lemma exInterval: "{2 ..< 8 :: int} = {2, 3, 4, 5, 6, 7}"
  by auto

lemma exIntervalClosed: "{0 .. 5 :: int} = {0, 1, 2, 3, 4, 5}"
  by auto

lemma exMaximum:
  "Max ((\<lambda>t. interferenceAt exHeap (treeId (exHeap 4)) [1, 2] t 0) ` {2 ..< 8}) = 5"
  "Max ((\<lambda>t. interferenceAt exHeap (treeId (exHeap 4)) [1, 2] t 1) ` {2 ..< 8}) = 8"
  unfolding exInterval
  by (simp_all add: interferenceAt_def powerAt_def activeAt_def exHeap_def mkSignal_def)

lemma exEarlier:
  "interferenceOfEarlier exHeap (treeId (exHeap 4)) [1, 2] 5 0 = 3"
  "interferenceOfEarlier exHeap (treeId (exHeap 4)) [1, 2] 5 1 = 3"
  by (simp_all add: interferenceOfEarlier_def powerAt_def exHeap_def mkSignal_def)

text \<open>
  Witness for C1: the reference frame 4 and the interferers 1 and 2. Over the window
  \<open>[2, 8)\<close> the maximum is 5 at bin 0 and 8 at bin 1, reached from instant 5 on. In the
  point window at 5, where frame 2 starts, only frame 1 started before: 3 at both bins.
\<close>

theorem getMaxInterference_is_maximum_witness:
  "(\<exists>m. getMaxInterference exHeap 2 8 4 [1, 2] = Some m
      \<and> sigAt m 0 = Some 5 \<and> sigAt m 1 = Some 8)
   \<and> (\<exists>m. getMaxInterference exHeap 5 5 4 [1, 2] = Some m
      \<and> sigAt m 0 = Some 3 \<and> sigAt m 1 = Some 3)"
proof -
  have win: "(2::int) \<le> 8" and point: "(5::int) \<le> 5" by simp_all
  have srt: "sorted (map (\<lambda>f. receptionStart (signal (exHeap f))) [1, 2])"
    by (simp add: exHeap_def mkSignal_def)
  have wf: "\<forall>f \<in> set [1, 2]. treeId (exHeap f) \<noteq> treeId (exHeap 4) \<longrightarrow>
               wellFormed (spectrum (signal (exHeap 4))) (signal (exHeap f))
               \<and> 0 \<le> receptionStart (signal (exHeap f))"
    by (simp add: exHeap_def mkSignal_def wellFormed_def upt_rec)
  have l0: "0 < length (spectrum (signal (exHeap 4)))"
    and l1: "1 < length (spectrum (signal (exHeap 4)))"
    by (simp_all add: exHeap_def mkSignal_def)
  have yes: "(2::int) < 8" and no: "\<not> (5::int) < 5" by simp_all
  from getMaxInterference_is_maximum [OF win srt wf] obtain m where
    m: "getMaxInterference exHeap 2 8 4 [1, 2] = Some m"
    and bins: "\<forall>b < length (spectrum (signal (exHeap 4))).
                 sigAt m b = Some
                   (if (2::int) < 8
                    then Max ((\<lambda>t. interferenceAt exHeap (treeId (exHeap 4))
                                      [1, 2] t b) ` {2 ..< 8})
                    else interferenceOfEarlier exHeap (treeId (exHeap 4)) [1, 2] 2 b)"
    by blast
  have "sigAt m 0 = Some 5"
    using bins [rule_format, OF l0] unfolding if_P [OF yes] exMaximum .
  moreover have "sigAt m 1 = Some 8"
    using bins [rule_format, OF l1] unfolding if_P [OF yes] exMaximum .
  ultimately have first: "\<exists>m. getMaxInterference exHeap 2 8 4 [1, 2] = Some m
      \<and> sigAt m 0 = Some 5 \<and> sigAt m 1 = Some 8"
    using m by blast
  from getMaxInterference_is_maximum [OF point srt wf] obtain m' where
    m': "getMaxInterference exHeap 5 5 4 [1, 2] = Some m'"
    and bins': "\<forall>b < length (spectrum (signal (exHeap 4))).
                 sigAt m' b = Some
                   (if (5::int) < 5
                    then Max ((\<lambda>t. interferenceAt exHeap (treeId (exHeap 4))
                                      [1, 2] t b) ` {5 ..< 5})
                    else interferenceOfEarlier exHeap (treeId (exHeap 4)) [1, 2] 5 b)"
    by blast
  have "sigAt m' 0 = Some 3"
    using bins' [rule_format, OF l0] unfolding if_not_P [OF no] exEarlier .
  moreover have "sigAt m' 1 = Some 3"
    using bins' [rule_format, OF l1] unfolding if_not_P [OF no] exEarlier .
  ultimately have second: "\<exists>m. getMaxInterference exHeap 5 5 4 [1, 2] = Some m
      \<and> sigAt m 0 = Some 3 \<and> sigAt m 1 = Some 3"
    using m' by blast
  show ?thesis using first second by blast
qed

text \<open>
  C1 as stated, with the window closed at \<open>end\<close>, fails. Frame 2 starts at 5, and at
  instant 5 of the window \<open>[0, 5]\<close> its power at bin 0 is 2, which is the maximum of the
  interference over \<open>[0, 5]\<close>; the loop stops at a signal that starts at \<open>end\<close> before
  adding it, and the value returned at bin 0 is 0.
\<close>

theorem signal_starting_at_end_counterexample:
  "getMaxInterference exHeap 0 5 1 [2] = Some (Signal_new [1, 2])
   \<and> sigAt (Signal_new [1, 2]) 0 = Some 0
   \<and> Max ((\<lambda>t. interferenceAt exHeap (treeId (exHeap 1)) [2] t 0) ` {0 .. 5}) = 2"
  unfolding exIntervalClosed
  by (simp add: getMaxInterference_def interferenceAt_def powerAt_def activeAt_def
      exHeap_def mkSignal_def Signal_new_def sigAt_def Let_def)

end
